theory Spec2Isabelle
  imports Main "HOL-Library.Multiset" "HOL-Library.Sublist"
begin

section \<open>Data model of telemetry/page/page_runner.py\<close>

text \<open>
  A page of the page set, with the attributes \<^verbatim>\<open>page_runner.py\<close> reads. An attribute
  that Python tests for truth (\<^verbatim>\<open>if not page.archive_path\<close>) is a \<open>string option\<close>:
  \<open>None\<close> and the empty string are both false.
\<close>

record page =
  url :: string
  archive_path :: "string option"
  disabled :: bool
  credentials :: "string option"
  url_as_file_safe_name :: string

datatype wpr_mode = WPR_OFF | WPR_REPLAY | WPR_RECORD

record options =
  pageset_shuffle_order_file :: "string option"
  pageset_shuffle :: bool
  pageset_repeat :: int
  page_repeat :: int
  allow_live_sites :: bool
  wpr_mode :: wpr_mode
  trace_dir :: "string option"
  profiler_dir :: "string option"
  show_stdout :: bool

text \<open>Python's truth value of a string-or-None attribute.\<close>

fun truthy :: "string option \<Rightarrow> bool" where
  "truthy None = False"
| "truthy (Some s) = (s \<noteq> [])"

text \<open>
  The exceptions the runner tells apart, in the order of its handlers:
  \<^verbatim>\<open>util.TimeoutException\<close>, \<^verbatim>\<open>exceptions.TabCrashException\<close>,
  \<^verbatim>\<open>exceptions.BrowserGoneException\<close>, \<^verbatim>\<open>page_test.Failure\<close>, the two built-in errors
  the runner itself can provoke, and any other \<^verbatim>\<open>Exception\<close> with its message.
\<close>

datatype fault =
    TimeoutException
  | TabCrashException
  | BrowserGoneException
  | Failure
  | AssertionError
  | AttributeError
  | Exception string

section \<open>Building the work list: \<^verbatim>\<open>_ShuffleAndFilterPageSet\<close>\<close>

text \<open>
  \<^verbatim>\<open>random.Random().shuffle(pages)\<close> of the standard library: for \<open>i\<close> from
  \<open>len(x) - 1\<close> down to \<open>1\<close>, draw \<open>j\<close> in \<open>0..i\<close> and swap \<open>x[i]\<close> with \<open>x[j]\<close>.
  The draws are a parameter \<open>rnd\<close>, reduced into range.
\<close>

fun shuffle_loop :: "(nat \<Rightarrow> nat) \<Rightarrow> nat \<Rightarrow> 'a list \<Rightarrow> 'a list" where
  "shuffle_loop rnd 0 xs = xs"
| "shuffle_loop rnd (Suc i) xs =
     (let j = rnd (Suc i) mod (Suc i + 1)
      in shuffle_loop rnd i (xs[Suc i := xs ! j, j := xs ! Suc i]))"

definition shuffle :: "(nat \<Rightarrow> nat) \<Rightarrow> 'a list \<Rightarrow> 'a list" where
  "shuffle rnd xs = shuffle_loop rnd (length xs - 1) xs"

text \<open>\<^verbatim>\<open>xrange(n)\<close> has \<open>n\<close> elements, and none when \<open>n\<close> is negative.\<close>

definition xrange_len :: "int \<Rightarrow> nat" where
  "xrange_len n = nat n"

text \<open>
  The final comprehension: for each outer repetition, for each page, for each inner
  repetition, the page.
\<close>

definition repeat_pages :: "int \<Rightarrow> int \<Rightarrow> 'a list \<Rightarrow> 'a list" where
  "repeat_pages set_rep item_rep pages =
     concat (replicate (xrange_len set_rep)
       (concat (map (\<lambda>p. replicate (xrange_len item_rep) p) pages)))"

text \<open>
  \<^verbatim>\<open>page_set.ReorderPageSet\<close> and \<^verbatim>\<open>PageFilter.IsSelected\<close> belong to other modules:
  they are the parameters \<open>reorder\<close> and \<open>is_selected\<close>.
\<close>

definition surviving :: "(page \<Rightarrow> bool) \<Rightarrow> page list \<Rightarrow> page list" where
  "surviving is_selected pages = filter (\<lambda>p. \<not> disabled p \<and> is_selected p) pages"

definition ShuffleAndFilterPageSet ::
  "(string \<Rightarrow> page list) \<Rightarrow> (page \<Rightarrow> bool) \<Rightarrow> (nat \<Rightarrow> nat) \<Rightarrow>
     page list \<Rightarrow> options \<Rightarrow> fault + page list" where
  "ShuffleAndFilterPageSet reorder is_selected rnd pages opts =
     (if truthy (pageset_shuffle_order_file opts) \<and> \<not> pageset_shuffle opts then
        Inl (Exception ''--pageset-shuffle-order-file requires --pageset-shuffle.'')
      else if truthy (pageset_shuffle_order_file opts) then
        Inr (reorder (the (pageset_shuffle_order_file opts)))
      else
        (let ps = surviving is_selected pages;
             ps' = (if pageset_shuffle opts then shuffle rnd ps else ps)
         in Inr (repeat_pages (pageset_repeat opts) (page_repeat opts) ps')))"

section \<open>The pre-loop archive check of \<^verbatim>\<open>PageRunner.Run\<close>\<close>

text \<open>
  What the runner tells the result sink and the browser, in the order of the calls. A
  browser or a tab is named by the number of the attempt that created it.
\<close>

datatype sink = OutResults | DummyResults

datatype reason = Msg string | CouldNotLogin | Exc fault

datatype event =
    AddFailure sink page reason
  | AddSkippedPage sink page
  | AddSuccess sink page
  | CustomizeBrowserOptionsForPage page
  | BrowserCreate nat
  | BrowserClose nat
  | TabDisconnect nat
  | CanRunForPage page
  | WillRunPageSet "nat option" sink
  | Navigate page "nat option"
  | TestRun page "nat option" sink
  | LoginNoLongerNeeded "nat option" page
  | CloseConnections "nat option"
  | DidRunPageSet "nat option" sink

text \<open>
  The places where the runner calls into the browser, the test or the page, each of which
  may raise. The world says, for attempt \<open>k\<close> and call site \<open>s\<close>, which exception the
  call raises, if any; it also answers the queries of the runner. Calls of the result
  sink and of \<^verbatim>\<open>logging\<close>, \<^verbatim>\<open>tab.Disconnect\<close> and \<^verbatim>\<open>browser.Close\<close> return
  normally.
\<close>

datatype site =
    S_Create
  | S_SetUpBrowser
  | S_WarnIfMissingCredentials
  | S_SetReplayArchivePath
  | S_TabsNew
  | S_CloseExtraTabs
  | S_WaitForThermalThrottling
  | S_StartTracing
  | S_StartProfiling
  | S_ServeFile
  | S_LoginNeeded
  | S_WillRunPageSet
  | S_Navigate
  | S_WaitToLoad
  | S_TestRun
  | S_LoginNoLongerNeeded
  | S_CloseConnections
  | S_CheckThermalThrottling
  | S_GetStandardOutput
  | S_StopTracing
  | S_StopProfiling
  | S_DidRunPageSet

record world =
  scheme :: "string \<Rightarrow> string"
  isfile :: "string \<Rightarrow> bool"
  path_exists :: "string \<Rightarrow> bool"
  isdir :: "string \<Rightarrow> bool"
  listdir_nonempty :: "string \<Rightarrow> bool"
  raises :: "nat \<Rightarrow> site \<Rightarrow> fault option"
  can_run :: "nat \<Rightarrow> bool"
  login_ok :: "nat \<Rightarrow> bool"
  supports_tracing :: "nat \<Rightarrow> bool"

text \<open>
  The first loop of \<^verbatim>\<open>Run\<close>: the failures it records and \<^verbatim>\<open>pages_without_archives\<close>.
\<close>

fun archive_check :: "world \<Rightarrow> options \<Rightarrow> page list \<Rightarrow> event list \<times> page list" where
  "archive_check w opts [] = ([], [])"
| "archive_check w opts (p # ps) =
     (let (evs, without) = archive_check w opts ps
      in if scheme w (url p) = ''file'' then (evs, without)
         else if \<not> truthy (archive_path p) then
           (if allow_live_sites opts then (evs, without)
            else (AddFailure OutResults p (Msg ''Page set archive not defined'') # evs,
                  p # without))
         else if wpr_mode opts \<noteq> WPR_RECORD then
           (if \<not> isfile w (the (archive_path p)) then
              (if allow_live_sites opts then (evs, without)
               else (AddFailure OutResults p (Msg ''Page set archive doesn't exist'') # evs,
                     p # without))
            else (evs, without))
         else (evs, without))"

definition runnable_pages :: "world \<Rightarrow> options \<Rightarrow> page list \<Rightarrow> page list" where
  "runnable_pages w opts pages =
     filter (\<lambda>p. p \<notin> set (snd (archive_check w opts pages))) pages"

definition ValidateOrCreateEmptyDirectory ::
  "world \<Rightarrow> string \<Rightarrow> string option \<Rightarrow> fault option" where
  "ValidateOrCreateEmptyDirectory w name path =
     (if \<not> truthy path then None
      else if \<not> path_exists w (the path) then None
      else if \<not> isdir w (the path) then
        Some (Exception (name @ '' isn't a directory: '' @ the path))
      else if listdir_nonempty w (the path) then
        Some (Exception (name @ '' isn't empty: '' @ the path))
      else None)"

section \<open>The session: \<^verbatim>\<open>_RunState\<close>\<close>

record run_state =
  first_browser :: bool
  browser :: "nat option"
  tab :: "nat option"
  is_tracing :: bool

definition RunState_init :: run_state where
  "RunState_init = \<lparr>first_browser = True, browser = None, tab = None, is_tracing = False\<rparr>"

definition Close :: "run_state \<Rightarrow> run_state \<times> event list" where
  "Close s =
     (let s1 = s\<lparr>is_tracing := False\<rparr>;
          (s2, e2) = (case tab s1 of
                        Some t \<Rightarrow> (s1\<lparr>tab := None\<rparr>, [TabDisconnect t])
                      | None \<Rightarrow> (s1, []));
          (s3, e3) = (case browser s2 of
                        Some b \<Rightarrow> (s2\<lparr>browser := None\<rparr>, [BrowserClose b])
                      | None \<Rightarrow> (s2, []))
      in (s3, e2 @ e3))"

section \<open>One page: \<^verbatim>\<open>_RunPage\<close>, \<^verbatim>\<open>_PreparePage\<close>, \<^verbatim>\<open>_CleanUpPage\<close>\<close>

text \<open>
  The variables of \<^verbatim>\<open>Run\<close> and of the runner that the loop changes, and the trace of
  calls made so far. A step returns the exception it raised, if any, and the variables
  as they were when it returned or raised.
\<close>

record test =
  discard_first_result :: bool
  needs_browser_restart_after_each_run :: bool

record ctx =
  state :: run_state
  last_archive_path :: "string option"
  results_for_current_run :: sink
  has_called_will_run_page_set :: bool
  did_login :: bool
  browser_wpr_mode :: wpr_mode
  trace :: "event list"

type_synonym step = "ctx \<Rightarrow> fault option \<times> ctx"

definition emit :: "event \<Rightarrow> step" where
  "emit e c = (None, c\<lparr>trace := trace c @ [e]\<rparr>)"

definition call :: "world \<Rightarrow> nat \<Rightarrow> site \<Rightarrow> event list \<Rightarrow> step" where
  "call w k s evs c = (raises w k s, c\<lparr>trace := trace c @ evs\<rparr>)"

definition skip :: step where
  "skip c = (None, c)"

fun steps :: "step list \<Rightarrow> step" where
  "steps [] c = (None, c)"
| "steps (s # ss) c =
     (case s c of (Some e, c') \<Rightarrow> (Some e, c') | (None, c') \<Rightarrow> steps ss c')"

definition close_state :: step where
  "close_state c =
     (let (s', evs) = Close (state c)
      in (None, c\<lparr>state := s', trace := trace c @ evs\<rparr>))"

definition CleanUpPage :: "world \<Rightarrow> nat \<Rightarrow> page \<Rightarrow> step" where
  "CleanUpPage w k p =
     steps [
       (\<lambda>c. if truthy (credentials p) \<and> did_login c
            then call w k S_LoginNoLongerNeeded [LoginNoLongerNeeded (tab (state c)) p] c
            else skip c),
       (\<lambda>c. call w k S_CloseConnections [CloseConnections (tab (state c))] c)]"

text \<open>
  \<^verbatim>\<open>_PreparePage\<close> returns \<open>Inr did_prepare\<close> or raises \<open>Inl e\<close>.
\<close>

definition PreparePage :: "world \<Rightarrow> nat \<Rightarrow> page \<Rightarrow> ctx \<Rightarrow> (fault + bool) \<times> ctx" where
  "PreparePage w k p c =
     (case (if scheme w (url p) = ''file'' then call w k S_ServeFile [] c else skip c) of
        (Some e, c1) \<Rightarrow> (Inl e, c1)
      | (None, c1) \<Rightarrow>
          (case (if truthy (credentials p) then call w k S_LoginNeeded [] c1 else skip c1) of
             (Some e, c2) \<Rightarrow> (Inl e, c2)
           | (None, c2) \<Rightarrow>
               (let c3 = (if truthy (credentials p)
                          then c2\<lparr>did_login := login_ok w k\<rparr> else c2)
                in if truthy (credentials p) \<and> \<not> did_login c3 then
                     (Inr False,
                      c3\<lparr>trace := trace c3 @
                           [AddFailure (results_for_current_run c3) p CouldNotLogin]\<rparr>)
                   else
                     (case steps [
                         (\<lambda>c. if \<not> has_called_will_run_page_set c
                              then call w k S_WillRunPageSet
                                     [WillRunPageSet (tab (state c)) (results_for_current_run c)]
                                     (c\<lparr>has_called_will_run_page_set := True\<rparr>)
                              else skip c),
                         (\<lambda>c. call w k S_Navigate [Navigate p (tab (state c))] c),
                         call w k S_WaitToLoad []] c3 of
                        (Some e, c4) \<Rightarrow> (Inl e, c4)
                      | (None, c4) \<Rightarrow> (Inr True, c4)))))"

text \<open>How the \<^verbatim>\<open>try\<close> body around \<^verbatim>\<open>test.Run\<close> is left, before its \<^verbatim>\<open>finally\<close>.\<close>

datatype flow = Normal | Return | Raise fault

definition run_test :: "world \<Rightarrow> nat \<Rightarrow> page \<Rightarrow> ctx \<Rightarrow> flow \<times> ctx" where
  "run_test w k p c =
     (let sk = results_for_current_run c;
          c1 = c\<lparr>trace := trace c @ [TestRun p (tab (state c)) sk]\<rparr>
      in case raises w k S_TestRun of
           None \<Rightarrow> (Normal, c1)
         | Some Failure \<Rightarrow>
             (Return, c1\<lparr>trace := trace c1 @ [AddFailure sk p (Exc Failure)]\<rparr>)
         | Some TimeoutException \<Rightarrow>
             (Return, c1\<lparr>trace := trace c1 @ [AddFailure sk p (Exc TimeoutException)]\<rparr>)
         | Some TabCrashException \<Rightarrow>
             (Raise TabCrashException,
              c1\<lparr>trace := trace c1 @ [AddFailure sk p (Exc TabCrashException)]\<rparr>)
         | Some BrowserGoneException \<Rightarrow> (Raise BrowserGoneException, c1)
         | Some e \<Rightarrow> (Raise e, c1))"

definition RunPage :: "world \<Rightarrow> nat \<Rightarrow> page \<Rightarrow> step" where
  "RunPage w k p c =
     (let sk = results_for_current_run c;
          c0 = c\<lparr>trace := trace c @ [CanRunForPage p]\<rparr>
      in if \<not> can_run w k then emit (AddSkippedPage sk p) c0
         else
           (case PreparePage w k p (c0\<lparr>did_login := False\<rparr>) of
              (Inl TimeoutException, c1) \<Rightarrow>
                emit (AddFailure sk p (Exc TimeoutException)) c1
            | (Inl TabCrashException, c1) \<Rightarrow>
                (Some TabCrashException,
                 c1\<lparr>trace := trace c1 @ [AddFailure sk p (Exc TabCrashException)]\<rparr>)
            | (Inl BrowserGoneException, c1) \<Rightarrow> (Some BrowserGoneException, c1)
            | (Inl e, c1) \<Rightarrow>
                (case CleanUpPage w k p c1 of
                   (Some e', c2) \<Rightarrow> (Some e', c2)
                 | (None, c2) \<Rightarrow> (Some e, c2))
            | (Inr False, c1) \<Rightarrow> CleanUpPage w k p c1
            | (Inr True, c1) \<Rightarrow>
                (case run_test w k p c1 of
                   (fl, c2) \<Rightarrow>
                     (case CleanUpPage w k p c2 of
                        (Some e', c3) \<Rightarrow> (Some e', c3)
                      | (None, c3) \<Rightarrow>
                          (case fl of
                             Normal \<Rightarrow> emit (AddSuccess sk p) c3
                           | Return \<Rightarrow> (None, c3)
                           | Raise e \<Rightarrow> (Some e, c3))))))"

section \<open>One attempt, the retry loop and the page loop of \<^verbatim>\<open>PageRunner.Run\<close>\<close>

definition SetupBrowser :: "world \<Rightarrow> nat \<Rightarrow> step" where
  "SetupBrowser w k c =
     (if tab (state c) \<noteq> None then (Some AssertionError, c)
      else
        (case raises w k S_Create of
           Some e \<Rightarrow> (Some e, c)
         | None \<Rightarrow>
             steps [
               call w k S_SetUpBrowser [],
               (\<lambda>c. if first_browser (state c)
                    then (case call w k S_WarnIfMissingCredentials [] c of
                            (Some e, c') \<Rightarrow> (Some e, c')
                          | (None, c') \<Rightarrow>
                              (None, c'\<lparr>state := (state c')\<lparr>first_browser := False\<rparr>\<rparr>))
                    else skip c),
               call w k S_SetReplayArchivePath []]
               (c\<lparr>state := (state c)\<lparr>browser := Some k\<rparr>,
                  trace := trace c @ [BrowserCreate k]\<rparr>)))"

definition SetupTracingTab :: "world \<Rightarrow> nat \<Rightarrow> step" where
  "SetupTracingTab w k c =
     (if supports_tracing w k
      then call w k S_StartTracing [] (c\<lparr>state := (state c)\<lparr>is_tracing := True\<rparr>\<rparr>)
      else skip c)"

definition EndTracing :: "world \<Rightarrow> nat \<Rightarrow> step" where
  "EndTracing w k c =
     (if is_tracing (state c) then
        (if browser (state c) = None then (Some AssertionError, c)
         else call w k S_StopTracing [] (c\<lparr>state := (state c)\<lparr>is_tracing := False\<rparr>\<rparr>))
      else skip c)"

definition EndProfiling :: "world \<Rightarrow> nat \<Rightarrow> step" where
  "EndProfiling w k c =
     (if browser (state c) = None then (Some AttributeError, c)
      else call w k S_StopProfiling [] c)"

text \<open>The statements of the outer \<^verbatim>\<open>try\<close> before the inner one.\<close>

definition prepare_session :: "world \<Rightarrow> options \<Rightarrow> nat \<Rightarrow> step" where
  "prepare_session w opts k =
     steps [
       (\<lambda>c. if browser (state c) = None then SetupBrowser w k c else skip c),
       (\<lambda>c. if tab (state c) = None
            then (case call w k S_TabsNew [] c of
                    (Some e, c') \<Rightarrow> (Some e, c')
                  | (None, c') \<Rightarrow> (None, c'\<lparr>state := (state c')\<lparr>tab := Some k\<rparr>\<rparr>))
            else skip c),
       call w k S_CloseExtraTabs [],
       call w k S_WaitForThermalThrottling [],
       (if truthy (trace_dir opts) then SetupTracingTab w k else skip),
       (if truthy (profiler_dir opts) then call w k S_StartProfiling [] else skip)]"

text \<open>The inner \<^verbatim>\<open>try\<close> with its handler for a crashed tab.\<close>

definition run_guarded :: "world \<Rightarrow> options \<Rightarrow> nat \<Rightarrow> page \<Rightarrow> step" where
  "run_guarded w opts k p c =
     (case steps [RunPage w k p, call w k S_CheckThermalThrottling []] c of
        (Some TabCrashException, c1) \<Rightarrow>
          steps [
            (if \<not> show_stdout opts then call w k S_GetStandardOutput [] else skip),
            close_state] c1
      | r \<Rightarrow> r)"

text \<open>
  One pass through the body of \<^verbatim>\<open>while tries\<close>: \<open>None\<close> is reaching \<^verbatim>\<open>break\<close>.
\<close>

definition attempt :: "world \<Rightarrow> test \<Rightarrow> options \<Rightarrow> nat \<Rightarrow> page \<Rightarrow> step" where
  "attempt w t opts k p =
     steps [
       prepare_session w opts k,
       run_guarded w opts k p,
       (if truthy (trace_dir opts) then EndTracing w k else skip),
       (if truthy (profiler_dir opts) then EndProfiling w k else skip),
       (if needs_browser_restart_after_each_run t then close_state else skip)]"

text \<open>
  \<^verbatim>\<open>while tries\<close>: the first argument is \<open>tries\<close>, the second the number of attempts
  made so far in the whole run, which is returned updated.
\<close>

fun try_loop ::
  "world \<Rightarrow> test \<Rightarrow> options \<Rightarrow> page \<Rightarrow> nat \<Rightarrow> nat \<Rightarrow> ctx \<Rightarrow> fault option \<times> nat \<times> ctx" where
  "try_loop w t opts p 0 k c = (None, k, c)"
| "try_loop w t opts p (Suc n) k c =
     (case attempt w t opts k p c of
        (None, c1) \<Rightarrow> (None, Suc k, c1)
      | (Some BrowserGoneException, c1) \<Rightarrow>
          (case close_state c1 of
             (_, c2) \<Rightarrow>
               if n = 0 then (Some BrowserGoneException, Suc k, c2)
               else try_loop w t opts p n (Suc k) c2)
      | (Some e, c1) \<Rightarrow> (Some e, Suc k, c1))"

text \<open>The statements of the \<^verbatim>\<open>for\<close> body before \<^verbatim>\<open>tries = 3\<close>.\<close>

definition loop_head :: "world \<Rightarrow> test \<Rightarrow> options \<Rightarrow> page \<Rightarrow> ctx \<Rightarrow> ctx" where
  "loop_head w t opts p c =
     (let c1 = (if wpr_mode opts \<noteq> WPR_RECORD then
                  c\<lparr>browser_wpr_mode :=
                      (if truthy (archive_path p) \<and> isfile w (the (archive_path p))
                       then WPR_REPLAY else WPR_OFF)\<rparr>
                else c);
          c2 = (if last_archive_path c1 \<noteq> archive_path p then
                  (snd (close_state c1))\<lparr>state := RunState_init,
                                           last_archive_path := archive_path p\<rparr>
                else c1)
      in c2\<lparr>results_for_current_run :=
               (if discard_first_result t \<and> \<not> has_called_will_run_page_set c2
                then DummyResults else OutResults)\<rparr>)"

definition run_page ::
  "world \<Rightarrow> test \<Rightarrow> options \<Rightarrow> page \<Rightarrow> nat \<Rightarrow> ctx \<Rightarrow> fault option \<times> nat \<times> ctx" where
  "run_page w t opts p k c = try_loop w t opts p 3 k (loop_head w t opts p c)"

fun run_pages ::
  "world \<Rightarrow> test \<Rightarrow> options \<Rightarrow> page list \<Rightarrow> nat \<Rightarrow> ctx \<Rightarrow> fault option \<times> nat \<times> ctx" where
  "run_pages w t opts [] k c = (None, k, c)"
| "run_pages w t opts (p # ps) k c =
     (case run_page w t opts p k c of
        (None, k', c') \<Rightarrow> run_pages w t opts ps k' c'
      | r \<Rightarrow> r)"

text \<open>
  The \<^verbatim>\<open>try\<close> of \<^verbatim>\<open>Run\<close> with its \<^verbatim>\<open>finally\<close>: the page loop, then
  \<^verbatim>\<open>test.DidRunPageSet\<close>, and \<^verbatim>\<open>state.Close()\<close> however the body is left.
\<close>

definition run_loop ::
  "world \<Rightarrow> test \<Rightarrow> options \<Rightarrow> page list \<Rightarrow> ctx \<Rightarrow> fault option \<times> ctx" where
  "run_loop w t opts pages c =
     (case run_pages w t opts pages 0 c of
        (r, k, c1) \<Rightarrow>
          (case (case r of
                   Some e \<Rightarrow> (Some e, c1)
                 | None \<Rightarrow>
                     call w k S_DidRunPageSet
                       [DidRunPageSet (tab (state c1)) (results_for_current_run c1)] c1) of
             (r', c2) \<Rightarrow> (r', snd (close_state c2))))"

definition ctx_init :: "options \<Rightarrow> bool \<Rightarrow> event list \<Rightarrow> ctx" where
  "ctx_init opts called evs =
     \<lparr>state = RunState_init, last_archive_path = None,
      results_for_current_run = OutResults,
      has_called_will_run_page_set = called, did_login = False,
      browser_wpr_mode = wpr_mode opts, trace = evs\<rparr>"

text \<open>
  \<^verbatim>\<open>PageRunner.Run\<close>: the exception it raises, if any, and the calls it made. The page
  set is its list of pages; \<open>called\<close> is the runner's \<^verbatim>\<open>has_called_will_run_page_set\<close>
  when \<^verbatim>\<open>Run\<close> starts. The credentials path and the user agent, which the runner only
  hands on to the browser, are left out.
\<close>

definition Run ::
  "world \<Rightarrow> (string \<Rightarrow> page list) \<Rightarrow> (page \<Rightarrow> bool) \<Rightarrow> (nat \<Rightarrow> nat) \<Rightarrow>
     page list \<Rightarrow> bool \<Rightarrow> test \<Rightarrow> options \<Rightarrow> fault option \<times> event list" where
  "Run w reorder is_selected rnd page_set called t opts =
     (case ShuffleAndFilterPageSet reorder is_selected rnd page_set opts of
        Inl e \<Rightarrow> (Some e, [])
      | Inr pages0 \<Rightarrow>
          (let evs0 = fst (archive_check w opts pages0);
               pages = runnable_pages w opts pages0;
               evs1 = evs0 @ map CustomizeBrowserOptionsForPage pages
           in case ValidateOrCreateEmptyDirectory w ''--trace-dir'' (trace_dir opts) of
                Some e \<Rightarrow> (Some e, evs1)
              | None \<Rightarrow>
                  (case ValidateOrCreateEmptyDirectory w ''--profiler-dir''
                          (profiler_dir opts) of
                     Some e \<Rightarrow> (Some e, evs1)
                   | None \<Rightarrow>
                       (case run_loop w t opts pages (ctx_init opts called evs1) of
                          (r, c) \<Rightarrow> (r, trace c)))))"

section \<open>Output names: \<^verbatim>\<open>_GetSequentialFileName\<close>\<close>

text \<open>\<^verbatim>\<open>'%03d' % index\<close>: the decimal digits, padded with zeros to three.\<close>

definition digit_char :: "nat \<Rightarrow> char" where
  "digit_char d = char_of (48 + d)"

function digits :: "nat \<Rightarrow> string" where
  "digits n = (if n < 10 then [digit_char n] else digits (n div 10) @ [digit_char (n mod 10)])"
  by pat_completeness auto
termination
  by (relation "measure id") auto

definition fmt03d :: "nat \<Rightarrow> string" where
  "fmt03d n = replicate (3 - length (digits n)) (CHR ''0'') @ digits n"

definition output_name :: "string \<Rightarrow> nat \<Rightarrow> string" where
  "output_name base_name index = base_name @ ''_'' @ fmt03d index"

text \<open>The number a string of decimal digits stands for.\<close>

definition digit_value :: "string \<Rightarrow> nat" where
  "digit_value s = foldl (\<lambda>a ch. 10 * a + (of_char ch - 48)) 0 s"

text \<open>
  \<^verbatim>\<open>glob.glob\<close> is a parameter: the list of paths matching a pattern. The loop has no
  bound of its own, so not returning is the value \<open>None\<close>.
\<close>

partial_function (option) sequential_loop ::
  "(string \<Rightarrow> string list) \<Rightarrow> string \<Rightarrow> nat \<Rightarrow> string option" where
  "sequential_loop glob base_name index =
     (if glob (output_name base_name index @ ''.*'') = []
      then Some (output_name base_name index)
      else sequential_loop glob base_name (index + 1))"

declare sequential_loop.simps [code]

definition GetSequentialFileName :: "(string \<Rightarrow> string list) \<Rightarrow> string \<Rightarrow> string option" where
  "GetSequentialFileName glob base_name = sequential_loop glob base_name 0"

text \<open>\<^verbatim>\<open>os.path.join\<close> of two components, on POSIX.\<close>

definition path_join :: "string \<Rightarrow> string \<Rightarrow> string" where
  "path_join a b =
     (if b \<noteq> [] \<and> hd b = CHR ''/'' then b
      else if a = [] \<or> last a = CHR ''/'' then a @ b
      else a @ ''/'' @ b)"

text \<open>
  The name \<^verbatim>\<open>_EndTracing\<close> opens for writing, and the name \<^verbatim>\<open>_SetupProfiling\<close> hands
  to the profiler.
\<close>

definition trace_file ::
  "(string \<Rightarrow> string list) \<Rightarrow> options \<Rightarrow> page \<Rightarrow> string option" where
  "trace_file glob opts p =
     (let f = path_join (the (trace_dir opts)) (url_as_file_safe_name p)
      in map_option (\<lambda>n. n @ ''.json'')
           (if page_repeat opts \<noteq> 1 \<or> pageset_repeat opts \<noteq> 1
            then GetSequentialFileName glob f else Some f))"

definition profiler_output_file ::
  "(string \<Rightarrow> string list) \<Rightarrow> options \<Rightarrow> page \<Rightarrow> string option" where
  "profiler_output_file glob opts p =
     (let f = path_join (the (profiler_dir opts)) (url_as_file_safe_name p)
      in if page_repeat opts \<noteq> 1 \<or> pageset_repeat opts \<noteq> 1
         then GetSequentialFileName glob f else Some f)"

text \<open>
  A directory as the list of its paths, and \<^verbatim>\<open>glob.glob\<close> on it for a pattern whose
  only wildcard is a final \<^verbatim>\<open>*\<close>: the paths that extend the pattern's stem within the
  same directory.
\<close>

definition glob_files :: "string list \<Rightarrow> string \<Rightarrow> string list" where
  "glob_files files pat =
     (case rev pat of
        c # rstem \<Rightarrow>
          (if c = CHR ''*''
           then filter (\<lambda>f. prefix (rev rstem) f \<and>
                            CHR ''/'' \<notin> set (drop (length rstem) f)) files
           else filter (\<lambda>f. f = pat) files)
      | [] \<Rightarrow> [])"

text \<open>
  \<^verbatim>\<open>_EndTracing\<close> on a directory: the trace is written under the name computed, so the
  directory holds it afterwards.
\<close>

definition write_trace :: "options \<Rightarrow> page \<Rightarrow> string list \<Rightarrow> (string \<times> string list) option" where
  "write_trace opts p files =
     map_option (\<lambda>n. (n, files @ [n])) (trace_file (glob_files files) opts p)"

section \<open>Traces\<close>

text \<open>
  The calls the page loop can make: everything but the failures of the archive check,
  \<^verbatim>\<open>CustomizeBrowserOptionsForPage\<close> and \<^verbatim>\<open>DidRunPageSet\<close>.
\<close>

fun loop_event :: "event \<Rightarrow> bool" where
  "loop_event (AddFailure s p (Msg m)) = False"
| "loop_event (CustomizeBrowserOptionsForPage p) = False"
| "loop_event (DidRunPageSet t s) = False"
| "loop_event e = True"

text \<open>The calls made between two points of a run.\<close>

definition new_events :: "ctx \<Rightarrow> ctx \<Rightarrow> event list" where
  "new_events c c' = drop (length (trace c)) (trace c')"

text \<open>A later point of a run: the trace has only grown, by calls of the page loop.\<close>

definition extends :: "ctx \<Rightarrow> ctx \<Rightarrow> bool" where
  "extends c c' = (trace c' = trace c @ new_events c c' \<and> list_all loop_event (new_events c c'))"

text \<open>
  The same within one turn of the page loop, where \<^verbatim>\<open>last_archive_path\<close> and
  \<^verbatim>\<open>results_for_current_run\<close> are not assigned.
\<close>

definition grows :: "ctx \<Rightarrow> ctx \<Rightarrow> bool" where
  "grows c c' =
     (extends c c' \<and> last_archive_path c' = last_archive_path c
      \<and> results_for_current_run c' = results_for_current_run c)"

definition good :: "step \<Rightarrow> bool" where
  "good f = (\<forall>c. grows c (snd (f c)))"

text \<open>
  \<^verbatim>\<open>_RunPage\<close> past the capability check: \<^verbatim>\<open>CanRunForPage\<close> was called and a fresh
  \<^verbatim>\<open>PageState\<close> made.
\<close>

definition entered :: "page \<Rightarrow> ctx \<Rightarrow> ctx" where
  "entered p c = c\<lparr>trace := trace c @ [CanRunForPage p], did_login := False\<rparr>"

text \<open>Kinds of calls.\<close>

fun is_DidRunPageSet :: "event \<Rightarrow> bool" where
  "is_DidRunPageSet (DidRunPageSet t s) = True"
| "is_DidRunPageSet e = False"

fun is_cleanup :: "event \<Rightarrow> bool" where
  "is_cleanup (LoginNoLongerNeeded t p) = True"
| "is_cleanup (CloseConnections t) = True"
| "is_cleanup e = False"

fun is_session_event :: "event \<Rightarrow> bool" where
  "is_session_event (BrowserCreate b) = True"
| "is_session_event (BrowserClose b) = True"
| "is_session_event (TabDisconnect t) = True"
| "is_session_event e = False"

text \<open>The call sites of an attempt before \<^verbatim>\<open>_RunPage\<close>.\<close>

definition session_sites :: "site list" where
  "session_sites =
     [S_Create, S_SetUpBrowser, S_WarnIfMissingCredentials, S_SetReplayArchivePath, S_TabsNew,
      S_CloseExtraTabs, S_WaitForThermalThrottling, S_StartTracing, S_StartProfiling]"

fun is_AddFailure :: "event \<Rightarrow> bool" where
  "is_AddFailure (AddFailure s p r) = True"
| "is_AddFailure e = False"

section \<open>Example inputs\<close>

definition ex_scheme :: "string \<Rightarrow> string" where
  "ex_scheme u = (if take 5 u = ''file:'' then ''file'' else ''http'')"

definition quiet :: "nat \<Rightarrow> site \<Rightarrow> fault option" where
  "quiet k s = None"

definition always :: "'a \<Rightarrow> bool" where
  "always x = True"

definition never :: "'a \<Rightarrow> bool" where
  "never x = False"

definition ex_world :: world where
  "ex_world =
     \<lparr>scheme = ex_scheme, isfile = always, path_exists = never, isdir = never,
      listdir_nonempty = never, raises = quiet, can_run = always, login_ok = always,
      supports_tracing = always\<rparr>"

text \<open>The connection to the browser is lost during navigation, on every attempt.\<close>

definition lose_connection :: "nat \<Rightarrow> site \<Rightarrow> fault option" where
  "lose_connection k s = (if s = S_Navigate then Some BrowserGoneException else None)"

text \<open>The tab crashes in \<^verbatim>\<open>test.Run\<close> on the first attempt of the run.\<close>

definition crash_first :: "nat \<Rightarrow> site \<Rightarrow> fault option" where
  "crash_first k s = (if k = 0 \<and> s = S_TestRun then Some TabCrashException else None)"

definition ex_page1 :: page where
  "ex_page1 = \<lparr>url = ''http://a/1'', archive_path = Some ''a.wpr'', disabled = False,
               credentials = None, url_as_file_safe_name = ''a_1''\<rparr>"

definition ex_page2 :: page where
  "ex_page2 = \<lparr>url = ''http://a/2'', archive_path = Some ''a.wpr'', disabled = False,
               credentials = None, url_as_file_safe_name = ''a_2''\<rparr>"

definition ex_page3 :: page where
  "ex_page3 = \<lparr>url = ''http://a/3'', archive_path = Some ''a.wpr'', disabled = True,
               credentials = None, url_as_file_safe_name = ''a_3''\<rparr>"

definition ex_login_page :: page where
  "ex_login_page = \<lparr>url = ''http://b/1'', archive_path = Some ''b.wpr'', disabled = False,
                    credentials = Some ''google'', url_as_file_safe_name = ''b_1''\<rparr>"

definition ex_file_page :: page where
  "ex_file_page = \<lparr>url = ''file:///c.html'', archive_path = None, disabled = False,
                   credentials = None, url_as_file_safe_name = ''c_html''\<rparr>"

definition ex_options :: options where
  "ex_options =
     \<lparr>pageset_shuffle_order_file = None, pageset_shuffle = False, pageset_repeat = 1,
      page_repeat = 1, allow_live_sites = False, wpr_mode = WPR_REPLAY, trace_dir = None,
      profiler_dir = None, show_stdout = True\<rparr>"

definition ex_test :: test where
  "ex_test = \<lparr>discard_first_result = False, needs_browser_restart_after_each_run = False\<rparr>"

definition ex_reorder :: "string \<Rightarrow> page list" where
  "ex_reorder f = [ex_page2, ex_page1]"

definition ex_rnd :: "nat \<Rightarrow> nat" where
  "ex_rnd i = 0"

definition ex_ctx :: ctx where
  "ex_ctx = ctx_init ex_options False []"

text \<open>The variables of the loop with a session set up by attempt 0.\<close>

definition ex_live_ctx :: ctx where
  "ex_live_ctx =
     ex_ctx\<lparr>state := \<lparr>first_browser = False, browser = Some 0, tab = Some 0,
                         is_tracing = False\<rparr>\<rparr>"

section \<open>Properties of the work list\<close>

lemma length_shuffle_loop: "length (shuffle_loop rnd i xs) = length xs"
  by (induction i arbitrary: xs) (simp_all add: Let_def)

lemma length_shuffle: "length (shuffle rnd xs) = length xs"
  by (simp add: shuffle_def length_shuffle_loop)

lemma mset_shuffle_loop: "i < length xs \<Longrightarrow> mset (shuffle_loop rnd i xs) = mset xs"
proof (induction i arbitrary: xs)
  case 0
  then show ?case by simp
next
  case (Suc i)
  let ?j = "rnd (Suc i) mod (Suc i + 1)"
  have "?j < Suc i + 1"
    by (rule mod_less_divisor) simp
  with Suc.prems have j: "?j < length xs"
    by linarith
  have "mset (xs[Suc i := xs ! ?j, ?j := xs ! Suc i]) = mset xs"
    using Suc.prems j by (simp add: mset_swap)
  moreover have "i < length (xs[Suc i := xs ! ?j, ?j := xs ! Suc i])"
    using Suc.prems by simp
  ultimately show ?case
    using Suc.IH by (simp add: Let_def)
qed

lemma mset_shuffle: "mset (shuffle rnd xs) = mset xs"
proof (cases xs)
  case Nil
  then show ?thesis by (simp add: shuffle_def)
next
  case (Cons a as)
  then show ?thesis by (simp add: shuffle_def mset_shuffle_loop)
qed

lemma length_concat_replicate:
  "length (concat (replicate n xs)) = n * length xs"
  by (induction n) simp_all

lemma length_concat_map_replicate:
  "length (concat (map (\<lambda>p. replicate m p) ps)) = length ps * m"
  by (induction ps) simp_all

lemma length_repeat_pages:
  "length (repeat_pages s r ps) = length ps * xrange_len s * xrange_len r"
  by (simp add: repeat_pages_def length_concat_replicate length_concat_map_replicate)

lemma nth_concat_replicate:
  "i < n * length xs \<Longrightarrow> concat (replicate n xs) ! i = xs ! (i mod length xs)"
proof (induction n arbitrary: i)
  case 0
  then show ?case by simp
next
  case (Suc n)
  show ?case
  proof (cases "i < length xs")
    case True
    then show ?thesis by (simp add: nth_append)
  next
    case False
    then have "i - length xs < n * length xs" using Suc.prems by simp
    then have "concat (replicate n xs) ! (i - length xs) = xs ! ((i - length xs) mod length xs)"
      by (rule Suc.IH)
    moreover have "(i - length xs) mod length xs = i mod length xs"
      using False by (simp add: le_mod_geq)
    ultimately show ?thesis using False by (simp add: nth_append)
  qed
qed

lemma nth_concat_map_replicate:
  "i < length ps * m \<Longrightarrow> concat (map (\<lambda>p. replicate m p) ps) ! i = ps ! (i div m)"
proof (induction ps arbitrary: i)
  case Nil
  then show ?case by simp
next
  case (Cons p ps)
  have m: "0 < m" using Cons.prems by (cases m) simp_all
  show ?case
  proof (cases "i < m")
    case True
    then show ?thesis by (simp add: nth_append)
  next
    case False
    then have "i - m < length ps * m" using Cons.prems by simp
    then have "concat (map (\<lambda>p. replicate m p) ps) ! (i - m) = ps ! ((i - m) div m)"
      by (rule Cons.IH)
    moreover have "i div m = Suc ((i - m) div m)"
      using False m by (simp add: le_div_geq)
    ultimately show ?thesis using False by (simp add: nth_append)
  qed
qed

lemma nth_repeat_pages:
  assumes "i < length ps * xrange_len s * xrange_len r"
  shows "repeat_pages s r ps ! i = ps ! ((i div xrange_len r) mod length ps)"
proof -
  let ?inner = "concat (map (\<lambda>p. replicate (xrange_len r) p) ps)"
  have len: "length ?inner = length ps * xrange_len r"
    by (simp add: length_concat_map_replicate)
  have "i < xrange_len s * length ?inner"
    using assms by (simp add: len mult.assoc mult.left_commute mult.commute)
  then have "repeat_pages s r ps ! i = ?inner ! (i mod length ?inner)"
    unfolding repeat_pages_def by (rule nth_concat_replicate)
  moreover have pos: "0 < length ps * xrange_len r"
  proof (rule ccontr)
    assume "\<not> 0 < length ps * xrange_len r"
    then have "length ps * xrange_len s * xrange_len r = 0" by auto
    with assms show False by simp
  qed
  then have "i mod length ?inner < length ps * xrange_len r"
    by (simp add: len)
  then have "?inner ! (i mod length ?inner) = ps ! ((i mod length ?inner) div xrange_len r)"
    by (rule nth_concat_map_replicate)
  moreover have "(i mod (length ps * xrange_len r)) div xrange_len r = (i div xrange_len r) mod length ps"
  proof -
    have r: "0 < xrange_len r" using pos by simp
    have "i mod (xrange_len r * length ps) =
            xrange_len r * (i div xrange_len r mod length ps) + i mod xrange_len r"
      by (rule mod_mult2_eq)
    then have "(i mod (xrange_len r * length ps)) div xrange_len r =
            (xrange_len r * (i div xrange_len r mod length ps) + i mod xrange_len r) div xrange_len r"
      by simp
    also have "\<dots> = i div xrange_len r mod length ps"
      using r by simp
    finally show ?thesis by (simp add: mult.commute)
  qed
  ultimately show ?thesis by (simp add: len)
qed

lemmas ex_defs = ex_world_def ex_scheme_def quiet_def always_def never_def lose_connection_def
  crash_first_def ex_page1_def ex_page2_def ex_page3_def ex_login_page_def ex_file_page_def
  ex_options_def ex_test_def ex_reorder_def ex_rnd_def ex_ctx_def

section \<open>Shuffle and reorder file\<close>

text \<open>
  C3, as stated: a configuration with both a shuffle request and a reorder file is
  refused. The code hands it to \<^verbatim>\<open>ReorderPageSet\<close> instead and raises nothing.
\<close>

theorem C3_both_options_counterexample:
  "ShuffleAndFilterPageSet ex_reorder always ex_rnd [ex_page1, ex_page2]
     (ex_options\<lparr>pageset_shuffle_order_file := Some ''order.txt'', pageset_shuffle := True\<rparr>)
     = Inr [ex_page2, ex_page1]
   \<and> fst (Run ex_world ex_reorder always ex_rnd [ex_page1, ex_page2] False ex_test
          (ex_options\<lparr>pageset_shuffle_order_file := Some ''order.txt'',
                      pageset_shuffle := True\<rparr>)) = None
   \<and> filter is_DidRunPageSet
        (snd (Run ex_world ex_reorder always ex_rnd [ex_page1, ex_page2] False ex_test
          (ex_options\<lparr>pageset_shuffle_order_file := Some ''order.txt'',
                      pageset_shuffle := True\<rparr>))) = [DidRunPageSet (Some 0) OutResults]"
  by code_simp

text \<open>
  C3, amended: a reorder file without a shuffle request is the configuration error,
  whatever the other settings, and \<^verbatim>\<open>Run\<close> raises it before any call; with both, the
  work list is the one \<^verbatim>\<open>ReorderPageSet\<close> returns for the file.
\<close>

theorem C3_order_file_requires_shuffle:
  assumes "truthy (pageset_shuffle_order_file opts)"
  shows "(\<not> pageset_shuffle opts \<longrightarrow>
            Run w reorder is_selected rnd page_set called t opts =
              (Some (Exception ''--pageset-shuffle-order-file requires --pageset-shuffle.''), []))
       \<and> (pageset_shuffle opts \<longrightarrow>
            ShuffleAndFilterPageSet reorder is_selected rnd page_set opts =
              Inr (reorder (the (pageset_shuffle_order_file opts))))"
  using assms by (simp add: Run_def ShuffleAndFilterPageSet_def)

theorem C3_order_file_requires_shuffle_witness:
  "truthy (pageset_shuffle_order_file (ex_options\<lparr>pageset_shuffle_order_file := Some ''order.txt''\<rparr>))
   \<and> Run ex_world ex_reorder always ex_rnd [ex_page1, ex_page2] False ex_test
        (ex_options\<lparr>pageset_shuffle_order_file := Some ''order.txt''\<rparr>) =
        (Some (Exception ''--pageset-shuffle-order-file requires --pageset-shuffle.''), [])
   \<and> truthy (pageset_shuffle_order_file
        (ex_options\<lparr>pageset_shuffle_order_file := Some ''order.txt'', pageset_shuffle := True\<rparr>))
   \<and> ShuffleAndFilterPageSet ex_reorder always ex_rnd [ex_page1, ex_page2]
        (ex_options\<lparr>pageset_shuffle_order_file := Some ''order.txt'', pageset_shuffle := True\<rparr>) =
        Inr [ex_page2, ex_page1]"
  using C3_order_file_requires_shuffle
          [of "ex_options\<lparr>pageset_shuffle_order_file := Some ''order.txt''\<rparr>"
              ex_world ex_reorder always ex_rnd "[ex_page1, ex_page2]" False ex_test]
        C3_order_file_requires_shuffle
          [of "ex_options\<lparr>pageset_shuffle_order_file := Some ''order.txt'', pageset_shuffle := True\<rparr>"
              ex_world ex_reorder always ex_rnd "[ex_page1, ex_page2]" False ex_test]
  by (simp add: ex_options_def ex_reorder_def)

section \<open>The work list without a reorder file\<close>

text \<open>
  C5: without a reorder file the work list is built from the pages that are neither
  disabled nor rejected by the filter (shuffled when asked). It has
  \<open>|surviving| * set-repeat * item-repeat\<close> entries, a repeat count below zero counting as
  zero as \<^verbatim>\<open>xrange\<close> does; entry \<open>i\<close> is item \<open>(i div item-repeat) mod |surviving|\<close>,
  which is the order outer repetition, item, inner repetition; and two enabled pages
  with a disabled one, set-repeat 1 and item-repeat 2, give \<open>[p1, p1, p2, p2]\<close>.
\<close>

theorem C5_work_list:
  assumes "\<not> truthy (pageset_shuffle_order_file opts)"
  shows "\<exists>ps. ShuffleAndFilterPageSet reorder is_selected rnd pages opts = Inr ps
           \<and> length ps = length (surviving is_selected pages)
                 * xrange_len (pageset_repeat opts) * xrange_len (page_repeat opts)
           \<and> (0 \<le> pageset_repeat opts \<and> 0 \<le> page_repeat opts \<longrightarrow>
                int (length ps) = int (length (surviving is_selected pages))
                   * pageset_repeat opts * page_repeat opts)
           \<and> (\<exists>qs. mset qs = mset (surviving is_selected pages)
                 \<and> (\<not> pageset_shuffle opts \<longrightarrow> qs = surviving is_selected pages)
                 \<and> (\<forall>i < length ps.
                       ps ! i = qs ! ((i div xrange_len (page_repeat opts)) mod length qs)))
           \<and> (\<not> disabled p1 \<and> is_selected p1 \<and> \<not> disabled p2 \<and> is_selected p2 \<and> disabled p3
                \<and> pages \<in> {[p1, p2, p3], [p1, p3, p2], [p3, p1, p2]}
                \<and> pageset_repeat opts = 1 \<and> page_repeat opts = 2 \<and> \<not> pageset_shuffle opts
                \<longrightarrow> ps = [p1, p1, p2, p2])"
proof -
  define qs where "qs = (if pageset_shuffle opts then shuffle rnd (surviving is_selected pages)
                         else surviving is_selected pages)"
  define ps where "ps = repeat_pages (pageset_repeat opts) (page_repeat opts) qs"
  have res: "ShuffleAndFilterPageSet reorder is_selected rnd pages opts = Inr ps"
    using assms by (simp add: ShuffleAndFilterPageSet_def ps_def qs_def Let_def)
  have lq: "length qs = length (surviving is_selected pages)"
    by (simp add: qs_def length_shuffle)
  have len: "length ps = length (surviving is_selected pages)
                 * xrange_len (pageset_repeat opts) * xrange_len (page_repeat opts)"
    by (simp add: ps_def length_repeat_pages lq)
  have lenint: "0 \<le> pageset_repeat opts \<and> 0 \<le> page_repeat opts \<longrightarrow>
                int (length ps) = int (length (surviving is_selected pages))
                   * pageset_repeat opts * page_repeat opts"
    by (simp add: len xrange_len_def)
  have mq: "mset qs = mset (surviving is_selected pages)"
    by (simp add: qs_def mset_shuffle)
  have nq: "\<not> pageset_shuffle opts \<longrightarrow> qs = surviving is_selected pages"
    by (simp add: qs_def)
  have idx: "\<forall>i < length ps. ps ! i = qs ! ((i div xrange_len (page_repeat opts)) mod length qs)"
    using len lq by (simp add: ps_def nth_repeat_pages)
  have scen: "\<not> disabled p1 \<and> is_selected p1 \<and> \<not> disabled p2 \<and> is_selected p2 \<and> disabled p3
                \<and> pages \<in> {[p1, p2, p3], [p1, p3, p2], [p3, p1, p2]}
                \<and> pageset_repeat opts = 1 \<and> page_repeat opts = 2 \<and> \<not> pageset_shuffle opts
                \<longrightarrow> ps = [p1, p1, p2, p2]"
    by (auto simp: ps_def qs_def surviving_def repeat_pages_def xrange_len_def numeral_2_eq_2)
  from res len lenint mq nq idx scen show ?thesis by blast
qed

theorem C5_work_list_witness:
  "\<not> truthy (pageset_shuffle_order_file (ex_options\<lparr>page_repeat := 2\<rparr>))
   \<and> ShuffleAndFilterPageSet ex_reorder always ex_rnd [ex_page1, ex_page2, ex_page3]
        (ex_options\<lparr>page_repeat := 2\<rparr>) = Inr [ex_page1, ex_page1, ex_page2, ex_page2]"
proof -
  have h: "\<not> truthy (pageset_shuffle_order_file (ex_options\<lparr>page_repeat := 2\<rparr>))"
    by (simp add: ex_options_def)
  have s: "\<not> disabled ex_page1 \<and> always ex_page1 \<and> \<not> disabled ex_page2 \<and> always ex_page2
        \<and> disabled ex_page3
        \<and> [ex_page1, ex_page2, ex_page3] \<in> {[ex_page1, ex_page2, ex_page3],
              [ex_page1, ex_page3, ex_page2], [ex_page3, ex_page1, ex_page2]}
        \<and> pageset_repeat (ex_options\<lparr>page_repeat := 2\<rparr>) = 1
        \<and> page_repeat (ex_options\<lparr>page_repeat := 2\<rparr>) = 2
        \<and> \<not> pageset_shuffle (ex_options\<lparr>page_repeat := 2\<rparr>)"
    by (simp add: ex_options_def ex_page1_def ex_page2_def ex_page3_def always_def)
  from C5_work_list [OF h, of ex_reorder always ex_rnd "[ex_page1, ex_page2, ex_page3]"
      ex_page1 ex_page2 ex_page3] s h
  show ?thesis by auto
qed

section \<open>The trace only grows\<close>

lemma growsI:
  "trace c' = trace c @ evs \<Longrightarrow> list_all loop_event evs \<Longrightarrow>
   last_archive_path c' = last_archive_path c \<Longrightarrow>
   results_for_current_run c' = results_for_current_run c \<Longrightarrow> grows c c'"
  by (simp add: grows_def extends_def new_events_def)

lemma extendsI: "trace c' = trace c @ evs \<Longrightarrow> list_all loop_event evs \<Longrightarrow> extends c c'"
  by (simp add: extends_def new_events_def)

lemma grows_extends: "grows c c' \<Longrightarrow> extends c c'"
  by (simp add: grows_def)

lemma extends_refl: "extends c c"
  by (simp add: extends_def new_events_def)

lemma extends_trans: "extends a b \<Longrightarrow> extends b c \<Longrightarrow> extends a c"
proof -
  assume ab: "extends a b" and bc: "extends b c"
  have "trace c = trace a @ (new_events a b @ new_events b c)"
    using ab bc by (simp add: extends_def)
  moreover have "list_all loop_event (new_events a b @ new_events b c)"
    using ab bc by (simp add: extends_def)
  ultimately show ?thesis by (rule extendsI)
qed

lemma grows_refl: "grows c c"
  by (simp add: grows_def extends_def new_events_def)

lemma grows_trans: "grows a b \<Longrightarrow> grows b c \<Longrightarrow> grows a c"
  using extends_trans [of a b c] by (simp add: grows_def)

lemma goodD: "good f \<Longrightarrow> f c = (r, c') \<Longrightarrow> grows c c'"
  by (auto simp: good_def dest: spec [where x = c])

lemma good_skip: "good skip"
  by (simp add: good_def skip_def grows_refl)

lemma good_call: "list_all loop_event evs \<Longrightarrow> good (call w k s evs)"
  by (auto simp: good_def call_def intro: growsI)

lemma good_close_state: "good close_state"
  unfolding good_def
proof
  fix c :: ctx
  have "list_all loop_event (snd (Close (state c)))"
    by (cases "tab (state c)"; cases "browser (state c)") (simp_all add: Close_def)
  then show "grows c (snd (close_state c))"
    by (auto simp: close_state_def split: prod.splits intro: growsI)
qed

lemma good_steps: "(\<And>f. f \<in> set fs \<Longrightarrow> good f) \<Longrightarrow> good (steps fs)"
proof (induction fs)
  case Nil
  then show ?case by (simp add: good_def grows_refl)
next
  case (Cons f fs)
  have f: "good f" and fs: "good (steps fs)"
    using Cons by simp_all
  show ?case
    unfolding good_def
  proof
    fix c :: ctx
    obtain r c1 where fc: "f c = (r, c1)" by (cases "f c")
    have g1: "grows c c1" using f fc by (rule goodD)
    show "grows c (snd (steps (f # fs) c))"
    proof (cases r)
      case None
      obtain r2 c2 where sc: "steps fs c1 = (r2, c2)" by (cases "steps fs c1")
      have "grows c1 c2" using fs sc by (rule goodD)
      with g1 have "grows c c2" by (rule grows_trans)
      then show ?thesis using fc None sc by simp
    next
      case (Some e)
      then show ?thesis using fc g1 by simp
    qed
  qed
qed

declare steps.simps [simp del]

lemma good_CleanUpPage: "good (CleanUpPage w k p)"
  unfolding CleanUpPage_def
  by (rule good_steps) (auto simp: good_def call_def skip_def grows_def extends_def new_events_def)


lemma good_SetupBrowser: "good (SetupBrowser w k)"
proof -
  have inner: "good (steps [
               call w k S_SetUpBrowser [],
               (\<lambda>c. if first_browser (state c)
                    then (case call w k S_WarnIfMissingCredentials [] c of
                            (Some e, c') \<Rightarrow> (Some e, c')
                          | (None, c') \<Rightarrow>
                              (None, c'\<lparr>state := (state c')\<lparr>first_browser := False\<rparr>\<rparr>))
                    else skip c),
               call w k S_SetReplayArchivePath []])"
    by (rule good_steps)
       (auto simp: good_def call_def skip_def grows_def extends_def new_events_def split: option.splits)
  show ?thesis
    unfolding good_def
  proof
    fix c :: ctx
    let ?c1 = "c\<lparr>state := (state c)\<lparr>browser := Some k\<rparr>, trace := trace c @ [BrowserCreate k]\<rparr>"
    have a: "grows c ?c1" by (simp add: grows_def extends_def new_events_def)
    have b: "grows ?c1 (snd (steps [
               call w k S_SetUpBrowser [],
               (\<lambda>c. if first_browser (state c)
                    then (case call w k S_WarnIfMissingCredentials [] c of
                            (Some e, c') \<Rightarrow> (Some e, c')
                          | (None, c') \<Rightarrow>
                              (None, c'\<lparr>state := (state c')\<lparr>first_browser := False\<rparr>\<rparr>))
                    else skip c),
               call w k S_SetReplayArchivePath []] ?c1))"
      using inner by (simp add: good_def)
    from a b have "grows c (snd (steps [
               call w k S_SetUpBrowser [],
               (\<lambda>c. if first_browser (state c)
                    then (case call w k S_WarnIfMissingCredentials [] c of
                            (Some e, c') \<Rightarrow> (Some e, c')
                          | (None, c') \<Rightarrow>
                              (None, c'\<lparr>state := (state c')\<lparr>first_browser := False\<rparr>\<rparr>))
                    else skip c),
               call w k S_SetReplayArchivePath []] ?c1))"
      by (rule grows_trans)
    then show "grows c (snd (SetupBrowser w k c))"
      by (simp add: SetupBrowser_def grows_refl split: option.splits)
  qed
qed

lemma good_SetupTracingTab: "good (SetupTracingTab w k)"
  by (simp add: good_def SetupTracingTab_def call_def skip_def grows_def extends_def new_events_def)

lemma good_EndTracing: "good (EndTracing w k)"
  by (simp add: good_def EndTracing_def call_def skip_def grows_def extends_def new_events_def)

lemma good_EndProfiling: "good (EndProfiling w k)"
  by (simp add: good_def EndProfiling_def call_def skip_def grows_def extends_def new_events_def)

lemma good_prepare_session: "good (prepare_session w opts k)"
  unfolding prepare_session_def
proof (rule good_steps)
  fix f
  assume "f \<in> set [
       (\<lambda>c. if browser (state c) = None then SetupBrowser w k c else skip c),
       (\<lambda>c. if tab (state c) = None
            then (case call w k S_TabsNew [] c of
                    (Some e, c') \<Rightarrow> (Some e, c')
                  | (None, c') \<Rightarrow> (None, c'\<lparr>state := (state c')\<lparr>tab := Some k\<rparr>\<rparr>))
            else skip c),
       call w k S_CloseExtraTabs [],
       call w k S_WaitForThermalThrottling [],
       (if truthy (trace_dir opts) then SetupTracingTab w k else skip),
       (if truthy (profiler_dir opts) then call w k S_StartProfiling [] else skip)]"
  then consider
      "f = (\<lambda>c. if browser (state c) = None then SetupBrowser w k c else skip c)"
    | "f = (\<lambda>c. if tab (state c) = None
            then (case call w k S_TabsNew [] c of
                    (Some e, c') \<Rightarrow> (Some e, c')
                  | (None, c') \<Rightarrow> (None, c'\<lparr>state := (state c')\<lparr>tab := Some k\<rparr>\<rparr>))
            else skip c)"
    | "f = call w k S_CloseExtraTabs []"
    | "f = call w k S_WaitForThermalThrottling []"
    | "f = (if truthy (trace_dir opts) then SetupTracingTab w k else skip)"
    | "f = (if truthy (profiler_dir opts) then call w k S_StartProfiling [] else skip)"
    by auto
  then show "good f"
  proof cases
    case 1
    then show ?thesis
      using good_SetupBrowser [of w k] good_skip by (simp add: good_def)
  next
    case 2
    then show ?thesis
      by (auto simp: good_def call_def skip_def grows_def extends_def new_events_def split: option.splits)
  next
    case 3
    then show ?thesis by (simp add: good_call)
  next
    case 4
    then show ?thesis by (simp add: good_call)
  next
    case 5
    then show ?thesis by (simp add: good_SetupTracingTab good_skip)
  next
    case 6
    then show ?thesis by (simp add: good_call good_skip)
  qed
qed


lemma good_navigate_steps:
  "good (steps [
           (\<lambda>c. if \<not> has_called_will_run_page_set c
                then call w k S_WillRunPageSet
                       [WillRunPageSet (tab (state c)) (results_for_current_run c)]
                       (c\<lparr>has_called_will_run_page_set := True\<rparr>)
                else skip c),
           (\<lambda>c. call w k S_Navigate [Navigate p (tab (state c))] c),
           call w k S_WaitToLoad []])"
  by (rule good_steps)
     (auto simp: good_def call_def skip_def grows_def extends_def new_events_def)

lemma grows_append:
  "grows c c' \<Longrightarrow> trace c'' = trace c' @ evs \<Longrightarrow> list_all loop_event evs \<Longrightarrow>
   last_archive_path c'' = last_archive_path c' \<Longrightarrow>
   results_for_current_run c'' = results_for_current_run c' \<Longrightarrow> grows c c''"
proof -
  assume a: "grows c c'" and b: "trace c'' = trace c' @ evs" and c: "list_all loop_event evs"
    and d: "last_archive_path c'' = last_archive_path c'"
    and e: "results_for_current_run c'' = results_for_current_run c'"
  have "grows c' c''" using b c d e by (rule growsI)
  with a show ?thesis by (rule grows_trans)
qed

lemma grows_PreparePage: "grows c (snd (PreparePage w k p c))"
proof -
  obtain r1 c1 where s1:
    "(if scheme w (url p) = ''file'' then call w k S_ServeFile [] c else skip c) = (r1, c1)"
    by (cases "if scheme w (url p) = ''file'' then call w k S_ServeFile [] c else skip c")
  have g1: "grows c c1"
    using s1 by (auto simp: call_def skip_def grows_def extends_def new_events_def split: if_splits)
  obtain r2 c2 where s2:
    "(if truthy (credentials p) then call w k S_LoginNeeded [] c1 else skip c1) = (r2, c2)"
    by (cases "if truthy (credentials p) then call w k S_LoginNeeded [] c1 else skip c1")
  have "grows c1 c2"
    using s2 by (auto simp: call_def skip_def grows_def extends_def new_events_def split: if_splits)
  with g1 have g2: "grows c c2" by (rule grows_trans)
  have gl: "grows c (c2\<lparr>did_login := b\<rparr>)" for b
    using g2 by (rule grows_append [where evs = "[]"]) simp_all
  have gf: "grows c (c2\<lparr>did_login := b, trace := trace c2 @ [AddFailure s p CouldNotLogin]\<rparr>)"
    for b s
    using g2 by (rule grows_append) (simp, simp, simp, simp)
  have g4: "grows c (snd (steps [
           (\<lambda>c. if \<not> has_called_will_run_page_set c
                then call w k S_WillRunPageSet
                       [WillRunPageSet (tab (state c)) (results_for_current_run c)]
                       (c\<lparr>has_called_will_run_page_set := True\<rparr>)
                else skip c),
           (\<lambda>c. call w k S_Navigate [Navigate p (tab (state c))] c),
           call w k S_WaitToLoad []] c3))" if "grows c c3" for c3
    using that good_navigate_steps [of w k p] by (auto simp: good_def intro: grows_trans)
  show ?thesis
  proof (cases r1)
    case (Some e)
    then show ?thesis
      using s1 g1 by (simp add: PreparePage_def split del: if_split)
  next
    case r1: None
    show ?thesis
    proof (cases r2)
      case (Some e)
      then show ?thesis
        using s1 s2 r1 g2 by (simp add: PreparePage_def split del: if_split)
    next
      case r2: None
      show ?thesis
      proof (cases "truthy (credentials p)")
        case True
        show ?thesis
        proof (cases "login_ok w k")
          case ok: True
          have "PreparePage w k p c =
                 (case steps [
           (\<lambda>c. if \<not> has_called_will_run_page_set c
                then call w k S_WillRunPageSet
                       [WillRunPageSet (tab (state c)) (results_for_current_run c)]
                       (c\<lparr>has_called_will_run_page_set := True\<rparr>)
                else skip c),
           (\<lambda>c. call w k S_Navigate [Navigate p (tab (state c))] c),
           call w k S_WaitToLoad []] (c2\<lparr>did_login := True\<rparr>) of
                        (Some e, c4) \<Rightarrow> (Inl e, c4)
                      | (None, c4) \<Rightarrow> (Inr True, c4))"
            using s1 s2 r1 r2 True ok
            by (simp add: PreparePage_def Let_def split del: if_split)
          then show ?thesis
            using g4 [OF gl [of True]] by (simp split: prod.splits option.splits)
        next
          case no: False
          have "PreparePage w k p c =
                 (Inr False, c2\<lparr>did_login := False,
                       trace := trace c2 @ [AddFailure (results_for_current_run c2) p CouldNotLogin]\<rparr>)"
            using s1 s2 r1 r2 True no
            by (simp add: PreparePage_def Let_def split del: if_split)
          then show ?thesis using gf by simp
        qed
      next
        case False
        have "PreparePage w k p c =
                 (case steps [
           (\<lambda>c. if \<not> has_called_will_run_page_set c
                then call w k S_WillRunPageSet
                       [WillRunPageSet (tab (state c)) (results_for_current_run c)]
                       (c\<lparr>has_called_will_run_page_set := True\<rparr>)
                else skip c),
           (\<lambda>c. call w k S_Navigate [Navigate p (tab (state c))] c),
           call w k S_WaitToLoad []] c2 of
                        (Some e, c4) \<Rightarrow> (Inl e, c4)
                      | (None, c4) \<Rightarrow> (Inr True, c4))"
          using s1 s2 r1 r2 False
          by (simp add: PreparePage_def Let_def split del: if_split)
        then show ?thesis
          using g4 [OF g2] by (simp split: prod.splits option.splits)
      qed
    qed
  qed
qed

lemma grows_run_test: "grows c (snd (run_test w k p c))"
  by (cases "raises w k S_TestRun"; cases "the (raises w k S_TestRun)")
     (simp_all add: run_test_def Let_def grows_def extends_def new_events_def)

lemma grows_CleanUpPage: "grows c (snd (CleanUpPage w k p c))"
  using good_CleanUpPage [of w k p] by (simp add: good_def)

text \<open>The cases of \<^verbatim>\<open>_RunPage\<close>.\<close>

lemma RunPage_skip:
  "\<not> can_run w k \<Longrightarrow>
   RunPage w k p c =
     (None, c\<lparr>trace := trace c @ [CanRunForPage p, AddSkippedPage (results_for_current_run c) p]\<rparr>)"
  by (simp add: RunPage_def Let_def emit_def)

lemma RunPage_prepare_timeout:
  "can_run w k \<Longrightarrow> PreparePage w k p (entered p c) = (Inl TimeoutException, c1) \<Longrightarrow>
   RunPage w k p c =
     (None, c1\<lparr>trace := trace c1 @
                 [AddFailure (results_for_current_run c) p (Exc TimeoutException)]\<rparr>)"
  by (simp add: RunPage_def Let_def emit_def entered_def)

lemma RunPage_prepare_crash:
  "can_run w k \<Longrightarrow> PreparePage w k p (entered p c) = (Inl TabCrashException, c1) \<Longrightarrow>
   RunPage w k p c =
     (Some TabCrashException,
      c1\<lparr>trace := trace c1 @
            [AddFailure (results_for_current_run c) p (Exc TabCrashException)]\<rparr>)"
  by (simp add: RunPage_def Let_def entered_def)

lemma RunPage_prepare_gone:
  "can_run w k \<Longrightarrow> PreparePage w k p (entered p c) = (Inl BrowserGoneException, c1) \<Longrightarrow>
   RunPage w k p c = (Some BrowserGoneException, c1)"
  by (simp add: RunPage_def Let_def entered_def)

lemma RunPage_prepare_unexpected:
  "can_run w k \<Longrightarrow> PreparePage w k p (entered p c) = (Inl e, c1) \<Longrightarrow>
   e \<noteq> TimeoutException \<Longrightarrow> e \<noteq> TabCrashException \<Longrightarrow> e \<noteq> BrowserGoneException \<Longrightarrow>
   RunPage w k p c =
     (case CleanUpPage w k p c1 of
        (Some e', c2) \<Rightarrow> (Some e', c2)
      | (None, c2) \<Rightarrow> (Some e, c2))"
  by (cases e) (auto simp: RunPage_def Let_def entered_def)

lemma RunPage_not_prepared:
  "can_run w k \<Longrightarrow> PreparePage w k p (entered p c) = (Inr False, c1) \<Longrightarrow>
   RunPage w k p c = CleanUpPage w k p c1"
  by (simp add: RunPage_def Let_def entered_def)

lemma RunPage_prepared:
  "can_run w k \<Longrightarrow> PreparePage w k p (entered p c) = (Inr True, c1) \<Longrightarrow>
   run_test w k p c1 = (fl, c2) \<Longrightarrow>
   RunPage w k p c =
     (case CleanUpPage w k p c2 of
        (Some e', c3) \<Rightarrow> (Some e', c3)
      | (None, c3) \<Rightarrow>
          (case fl of
             Normal \<Rightarrow> (None, c3\<lparr>trace := trace c3 @ [AddSuccess (results_for_current_run c) p]\<rparr>)
           | Return \<Rightarrow> (None, c3)
           | Raise e \<Rightarrow> (Some e, c3)))"
  by (simp add: RunPage_def Let_def entered_def emit_def split: flow.splits prod.splits option.splits)

lemma RunPage_grows_after_check:
  "grows (c\<lparr>trace := trace c @ [CanRunForPage p]\<rparr>) (snd (RunPage w k p c))"
proof -
  define c0 where "c0 = c\<lparr>trace := trace c @ [CanRunForPage p]\<rparr>"
  have g0: "grows c0 (entered p c)" by (simp add: grows_def extends_def new_events_def entered_def c0_def)
  obtain pr c1 where prep: "PreparePage w k p (entered p c) = (pr, c1)"
    by (cases "PreparePage w k p (entered p c)")
  have "grows (entered p c) c1"
    using grows_PreparePage [of "entered p c" w k p] prep by simp
  with g0 have g1: "grows c0 c1" by (rule grows_trans)
  obtain fl c2 where rt: "run_test w k p c1 = (fl, c2)"
    by (cases "run_test w k p c1")
  have "grows c1 c2" using grows_run_test [of c1 w k p] rt by simp
  with g1 have g2: "grows c0 c2" by (rule grows_trans)
  obtain r1 d1 where e1: "CleanUpPage w k p c1 = (r1, d1)" by (cases "CleanUpPage w k p c1")
  obtain r2 d2 where e2: "CleanUpPage w k p c2 = (r2, d2)" by (cases "CleanUpPage w k p c2")
  have "grows c1 d1" using grows_CleanUpPage [of c1 w k p] e1 by simp
  with g1 have cl1: "grows c0 d1" by (rule grows_trans)
  have "grows c2 d2" using grows_CleanUpPage [of c2 w k p] e2 by simp
  with g2 have cl2: "grows c0 d2" by (rule grows_trans)
  have "grows c0 (snd (RunPage w k p c))"
  proof (cases "can_run w k")
    case False
    then show ?thesis by (simp add: RunPage_skip grows_def extends_def new_events_def c0_def)
  next
    case True
    show ?thesis
    proof (cases pr)
      case (Inl e)
      consider "e = TimeoutException" | "e = TabCrashException" | "e = BrowserGoneException"
        | "e \<noteq> TimeoutException" "e \<noteq> TabCrashException" "e \<noteq> BrowserGoneException"
        by blast
      then show ?thesis
      proof cases
        case 1
        have "grows c0 (c1\<lparr>trace := trace c1 @
                 [AddFailure (results_for_current_run c) p (Exc TimeoutException)]\<rparr>)"
          using g1 by (rule grows_append) (simp, simp, simp, simp)
        then show ?thesis using True prep Inl 1 by (simp add: RunPage_prepare_timeout)
      next
        case 2
        have "grows c0 (c1\<lparr>trace := trace c1 @
                 [AddFailure (results_for_current_run c) p (Exc TabCrashException)]\<rparr>)"
          using g1 by (rule grows_append) (simp, simp, simp, simp)
        then show ?thesis using True prep Inl 2 by (simp add: RunPage_prepare_crash)
      next
        case 3
        then show ?thesis using True prep Inl g1 by (simp add: RunPage_prepare_gone)
      next
        case 4
        then show ?thesis
          using True prep Inl e1 cl1 by (simp add: RunPage_prepare_unexpected split: option.splits)
      qed
    next
      case (Inr b)
      show ?thesis
      proof (cases b)
        case False
        then show ?thesis using True prep Inr e1 cl1 by (simp add: RunPage_not_prepared)
      next
        case b: True
        have "grows c0 (d2\<lparr>trace := trace d2 @ [AddSuccess (results_for_current_run c) p]\<rparr>)"
          using cl2 by (rule grows_append) (simp, simp, simp, simp)
        then show ?thesis
          using True prep Inr b rt e2 cl2
          by (simp add: RunPage_prepared split: option.splits flow.splits)
      qed
    qed
  qed
  then show ?thesis by (simp add: c0_def)
qed

lemma good_RunPage: "good (RunPage w k p)"
  unfolding good_def
proof
  fix c :: ctx
  have "grows c (c\<lparr>trace := trace c @ [CanRunForPage p]\<rparr>)"
    by (simp add: grows_def extends_def new_events_def)
  then show "grows c (snd (RunPage w k p c))"
    using RunPage_grows_after_check by (rule grows_trans)
qed

lemma steps_Cons:
  "steps (f # fs) c = (case f c of (Some e, c') \<Rightarrow> (Some e, c') | (None, c') \<Rightarrow> steps fs c')"
  by (simp add: steps.simps)

lemma good_run_guarded: "good (run_guarded w opts k p)"
  unfolding good_def
proof
  fix c :: ctx
  have a: "good (steps [RunPage w k p, call w k S_CheckThermalThrottling []])"
    by (rule good_steps) (auto simp: good_RunPage good_call)
  have b: "good (steps [
            (if \<not> show_stdout opts then call w k S_GetStandardOutput [] else skip),
            close_state])"
    by (rule good_steps) (auto simp: good_close_state good_call good_skip)
  obtain r c1 where s: "steps [RunPage w k p, call w k S_CheckThermalThrottling []] c = (r, c1)"
    by (cases "steps [RunPage w k p, call w k S_CheckThermalThrottling []] c")
  have g1: "grows c c1" using a s by (rule goodD)
  have g2: "grows c (snd (steps [f, close_state] c1))" if "good f" for f
  proof -
    have "good (steps [f, close_state])"
      by (rule good_steps) (use that in \<open>auto simp: good_close_state\<close>)
    then have "grows c1 (snd (steps [f, close_state] c1))"
      by (simp add: good_def)
    with g1 show ?thesis by (rule grows_trans)
  qed
  show "grows c (snd (run_guarded w opts k p c))"
    using s g1 g2 [OF good_call [of "[]" w k S_GetStandardOutput]] g2 [OF good_skip]
    by (simp add: run_guarded_def split: option.splits fault.splits)
qed

lemma good_attempt: "good (attempt w t opts k p)"
  unfolding attempt_def
  by (rule good_steps)
     (auto simp: good_prepare_session good_run_guarded good_EndTracing good_EndProfiling
                 good_close_state good_skip)

lemma grows_close_state: "grows c (snd (close_state c))"
  using good_close_state by (simp add: good_def)

lemma grows_try_loop: "grows c (snd (snd (try_loop w t opts p n k c)))"
proof (induction n arbitrary: k c)
  case 0
  then show ?case by (simp add: grows_refl)
next
  case (Suc n)
  obtain r c1 where a: "attempt w t opts k p c = (r, c1)"
    by (cases "attempt w t opts k p c")
  have g1: "grows c c1" using good_attempt a by (rule goodD)
  obtain r2 c2 where cl: "close_state c1 = (r2, c2)" by (cases "close_state c1")
  have "grows c1 c2" using grows_close_state [of c1] cl by simp
  with g1 have g2: "grows c c2" by (rule grows_trans)
  have "grows c2 (snd (snd (try_loop w t opts p n (Suc k) c2)))"
    by (rule Suc.IH)
  with g2 have g3: "grows c (snd (snd (try_loop w t opts p n (Suc k) c2)))"
    by (rule grows_trans)
  show ?case
    using a cl g1 g2 g3 by (simp split: option.splits fault.splits)
qed

lemma extends_loop_head: "extends c (loop_head w t opts p c)"
proof -
  have "extends c (snd (close_state c))"
    using grows_close_state by (rule grows_extends)
  then show ?thesis
    by (auto simp: loop_head_def Let_def extends_def new_events_def close_state_def
             split: prod.splits)
qed

lemma extends_run_page: "extends c (snd (snd (run_page w t opts p k c)))"
  unfolding run_page_def
  using extends_loop_head grows_try_loop [THEN grows_extends] by (rule extends_trans)

lemma extends_run_pages: "extends c (snd (snd (run_pages w t opts ps k c)))"
proof (induction ps arbitrary: k c)
  case Nil
  then show ?case by (simp add: extends_refl)
next
  case (Cons p ps)
  obtain r k1 c1 where rp: "run_page w t opts p k c = (r, k1, c1)"
    by (cases "run_page w t opts p k c")
  have g1: "extends c c1" using extends_run_page [of c w t opts p k] rp by simp
  have "extends c1 (snd (snd (run_pages w t opts ps k1 c1)))"
    by (rule Cons.IH)
  with g1 have "extends c (snd (snd (run_pages w t opts ps k1 c1)))"
    by (rule extends_trans)
  then show ?case using rp g1 by (simp split: option.splits)
qed

section \<open>Teardown\<close>

text \<open>
  C8: \<^verbatim>\<open>_RunState.Close\<close> is idempotent. A second \<^verbatim>\<open>Close\<close> changes nothing and
  makes no call, so a tab or browser already closed is not closed again and nothing can
  raise; every \<^verbatim>\<open>Close\<close> leaves the tracing flag cleared and no tab or browser, and the
  first one disconnects the tab and closes the browser that were there, once each.
\<close>

theorem C8_close_idempotent:
  "Close (fst (Close s)) = (fst (Close s), [])
   \<and> \<not> is_tracing (fst (Close s))
   \<and> tab (fst (Close s)) = None \<and> browser (fst (Close s)) = None
   \<and> snd (Close s) =
        (case tab s of Some t \<Rightarrow> [TabDisconnect t] | None \<Rightarrow> [])
        @ (case browser s of Some b \<Rightarrow> [BrowserClose b] | None \<Rightarrow> [])"
  by (cases "tab s"; cases "browser s") (simp_all add: Close_def)

section \<open>The end of the page loop\<close>

lemma Close_closed:
  "browser (fst (Close s)) = None \<and> tab (fst (Close s)) = None \<and> \<not> is_tracing (fst (Close s))"
  by (cases "tab s"; cases "browser s") (simp_all add: Close_def)

lemma Close_events:
  "snd (Close s) =
     (case tab s of Some t \<Rightarrow> [TabDisconnect t] | None \<Rightarrow> [])
     @ (case browser s of Some b \<Rightarrow> [BrowserClose b] | None \<Rightarrow> [])"
  by (cases "tab s"; cases "browser s") (simp_all add: Close_def)

lemma Close_no_finalize: "filter is_DidRunPageSet (snd (Close s)) = []"
  by (cases "tab s"; cases "browser s") (simp_all add: Close_events)

lemma close_state_eq:
  "close_state c = (None, c\<lparr>state := fst (Close (state c)), trace := trace c @ snd (Close (state c))\<rparr>)"
  by (simp add: close_state_def split: prod.splits)

lemma loop_event_not_finalize: "list_all loop_event evs \<Longrightarrow> filter is_DidRunPageSet evs = []"
proof (induction evs)
  case Nil
  then show ?case by simp
next
  case (Cons e evs)
  then show ?case by (cases e) simp_all
qed

lemma new_events_append:
  "trace c' = trace c @ evs \<Longrightarrow> new_events c c' = evs"
  by (simp add: new_events_def)

lemma run_loop_result:
  assumes "run_pages w t opts pages 0 c = (r0, k, c1)"
    and "run_loop w t opts pages c = (r, c')"
  shows "state c' = fst (Close (state c1))
       \<and> trace c' =
            trace c1
            @ (if r0 = None
               then [DidRunPageSet (tab (state c1)) (results_for_current_run c1)] else [])
            @ snd (Close (state c1))
       \<and> r = (if r0 = None then raises w k S_DidRunPageSet else r0)"
  using assms by (cases r0) (auto simp: run_loop_def call_def close_state_eq)

lemma Close_loop_events: "list_all loop_event (snd (Close s))"
  by (cases "tab s"; cases "browser s") (simp_all add: Close_events)

lemma run_loop_events:
  assumes "run_loop w t opts pages c = (r, c')"
  shows "trace c' = trace c @ new_events c c'
       \<and> list_all (\<lambda>e. loop_event e \<or> is_DidRunPageSet e) (new_events c c')"
proof -
  obtain r0 k c1 where rp: "run_pages w t opts pages 0 c = (r0, k, c1)"
    using prod_cases3 by blast
  let ?tail = "(if r0 = None
               then [DidRunPageSet (tab (state c1)) (results_for_current_run c1)] else [])
              @ snd (Close (state c1))"
  have g: "extends c c1"
    using extends_run_pages [of c w t opts pages 0] rp by simp
  have "trace c' = trace c1 @ ?tail"
    using run_loop_result [OF rp assms] by simp
  then have tr: "trace c' = trace c @ (new_events c c1 @ ?tail)"
    using g by (simp add: extends_def)
  then have ne: "new_events c c' = new_events c c1 @ ?tail"
    by (rule new_events_append)
  have "list_all loop_event (new_events c c1)"
    using g by (simp add: extends_def)
  then have "list_all (\<lambda>e. loop_event e \<or> is_DidRunPageSet e) (new_events c c1)"
    by (simp add: list_all_iff)
  moreover have "list_all (\<lambda>e. loop_event e \<or> is_DidRunPageSet e) (snd (Close (state c1)))"
    using Close_loop_events [of "state c1"] by (simp add: list_all_iff)
  ultimately have "list_all (\<lambda>e. loop_event e \<or> is_DidRunPageSet e) (new_events c c')"
    by (simp add: ne)
  then show ?thesis using tr ne by simp
qed

lemma Run_events:
  assumes "e \<in> set (snd (Run w reorder is_selected rnd page_set called t opts))"
  shows "(\<exists>pages0. e \<in> set (fst (archive_check w opts pages0)))
       \<or> (\<exists>q. e = CustomizeBrowserOptionsForPage q) \<or> loop_event e \<or> is_DidRunPageSet e"
proof (cases "ShuffleAndFilterPageSet reorder is_selected rnd page_set opts")
  case (Inl x)
  then show ?thesis using assms by (simp add: Run_def)
next
  case (Inr pages0)
  let ?evs1 = "fst (archive_check w opts pages0)
               @ map CustomizeBrowserOptionsForPage (runnable_pages w opts pages0)"
  have pre: "e \<in> set ?evs1 \<Longrightarrow> ?thesis"
    by auto
  obtain r c' where rl:
    "run_loop w t opts (runnable_pages w opts pages0) (ctx_init opts called ?evs1) = (r, c')"
    by (cases "run_loop w t opts (runnable_pages w opts pages0) (ctx_init opts called ?evs1)")
  have tr: "trace c' = ?evs1 @ new_events (ctx_init opts called ?evs1) c'"
    and le: "list_all (\<lambda>e. loop_event e \<or> is_DidRunPageSet e)
               (new_events (ctx_init opts called ?evs1) c')"
    using run_loop_events [OF rl] by (simp_all add: ctx_init_def)
  have "e \<in> set ?evs1 \<or> e \<in> set (trace c')"
    using assms Inr rl
    by (auto simp: Run_def Let_def split: option.splits)
  then consider "e \<in> set ?evs1" | "e \<in> set (new_events (ctx_init opts called ?evs1) c')"
    using tr by (metis Un_iff set_append)
  then show ?thesis
  proof cases
    case 1
    then show ?thesis by (rule pre)
  next
    case 2
    then show ?thesis using le by (auto simp: list_all_iff)
  qed
qed

text \<open>
  C6, amended: when the page loop completes, \<^verbatim>\<open>DidRunPageSet\<close> is called exactly once,
  after the calls of the loop, with the tab and the sink the loop left; when the loop is
  left by an exception, \<^verbatim>\<open>DidRunPageSet\<close> is not called and the exception is the one
  \<^verbatim>\<open>Run\<close> raises. In both cases the last thing done is \<^verbatim>\<open>state.Close()\<close>, after
  which there is no tab, no browser and no tracing.
\<close>

theorem C6_finalize_only_after_normal_completion:
  assumes "run_pages w t opts pages 0 c = (r0, k, c1)"
    and "run_loop w t opts pages c = (r, c')"
  shows "browser (state c') = None \<and> tab (state c') = None \<and> \<not> is_tracing (state c')
       \<and> new_events c c' =
            new_events c c1
            @ (if r0 = None
               then [DidRunPageSet (tab (state c1)) (results_for_current_run c1)] else [])
            @ snd (Close (state c1))
       \<and> filter is_DidRunPageSet (new_events c c') =
            (if r0 = None
             then [DidRunPageSet (tab (state c1)) (results_for_current_run c1)] else [])
       \<and> (r0 \<noteq> None \<longrightarrow> r = r0)"
proof -
  let ?hook = "(if r0 = None
               then [DidRunPageSet (tab (state c1)) (results_for_current_run c1)] else [])"
  have res: "state c' = fst (Close (state c1))"
    and tr': "trace c' = trace c1 @ ?hook @ snd (Close (state c1))"
    and r: "r = (if r0 = None then raises w k S_DidRunPageSet else r0)"
    using run_loop_result [OF assms] by simp_all
  have closed: "browser (state c') = None \<and> tab (state c') = None \<and> \<not> is_tracing (state c')"
    using Close_closed [of "state c1"] res by simp
  have g: "extends c c1"
    using extends_run_pages [of c w t opts pages 0] assms(1) by simp
  then have "trace c' = trace c @ (new_events c c1 @ ?hook @ snd (Close (state c1)))"
    using tr' by (simp add: extends_def)
  then have ne: "new_events c c' = new_events c c1 @ ?hook @ snd (Close (state c1))"
    by (rule new_events_append)
  have "filter is_DidRunPageSet (new_events c c1) = []"
    using g by (simp add: extends_def loop_event_not_finalize)
  then have once: "filter is_DidRunPageSet (new_events c c') = ?hook"
    by (simp add: ne Close_no_finalize)
  have "r0 \<noteq> None \<longrightarrow> r = r0"
    using r by simp
  with closed ne once show ?thesis by simp
qed

text \<open>
  C6, as stated: the finalize hook runs once also when the run aborts. With the
  connection lost on every attempt \<^verbatim>\<open>Run\<close> raises \<^verbatim>\<open>BrowserGoneException\<close> and
  \<^verbatim>\<open>DidRunPageSet\<close> is never called.
\<close>

theorem C6_abort_skips_finalize_counterexample:
  "fst (Run (ex_world\<lparr>raises := lose_connection\<rparr>) ex_reorder always ex_rnd
          [ex_page1, ex_page2] False ex_test ex_options) = Some BrowserGoneException
   \<and> filter is_DidRunPageSet
        (snd (Run (ex_world\<lparr>raises := lose_connection\<rparr>) ex_reorder always ex_rnd
          [ex_page1, ex_page2] False ex_test ex_options)) = []"
  by code_simp

theorem C6_finalize_only_after_normal_completion_witness:
  "filter is_DidRunPageSet
        (new_events ex_ctx (snd (run_loop ex_world ex_test ex_options [ex_page1] ex_ctx)))
       = [DidRunPageSet (Some 0) OutResults]
   \<and> filter is_DidRunPageSet
        (new_events ex_ctx
           (snd (run_loop (ex_world\<lparr>raises := lose_connection\<rparr>) ex_test ex_options
                   [ex_page1] ex_ctx)))
       = []
   \<and> fst (run_loop (ex_world\<lparr>raises := lose_connection\<rparr>) ex_test ex_options
                   [ex_page1] ex_ctx) = Some BrowserGoneException"
proof -
  let ?w = "ex_world\<lparr>raises := lose_connection\<rparr>"
  obtain r0 k c1 where a: "run_pages ex_world ex_test ex_options [ex_page1] 0 ex_ctx = (r0, k, c1)"
    using prod_cases3 by blast
  have "fst (run_pages ex_world ex_test ex_options [ex_page1] 0 ex_ctx) = None
      \<and> tab (state (snd (snd (run_pages ex_world ex_test ex_options [ex_page1] 0 ex_ctx)))) = Some 0
      \<and> results_for_current_run
           (snd (snd (run_pages ex_world ex_test ex_options [ex_page1] 0 ex_ctx))) = OutResults"
    by code_simp
  then have a2: "r0 = None" "tab (state c1) = Some 0" "results_for_current_run c1 = OutResults"
    by (simp_all only: a fst_conv snd_conv)
  obtain r c' where b: "run_loop ex_world ex_test ex_options [ex_page1] ex_ctx = (r, c')"
    by (cases "run_loop ex_world ex_test ex_options [ex_page1] ex_ctx")
  obtain r0' k' c1' where c: "run_pages ?w ex_test ex_options [ex_page1] 0 ex_ctx = (r0', k', c1')"
    using prod_cases3 by blast
  have "fst (run_pages ?w ex_test ex_options [ex_page1] 0 ex_ctx) = Some BrowserGoneException"
    by code_simp
  then have c2: "r0' = Some BrowserGoneException"
    by (simp only: c fst_conv)
  obtain r' c'' where d: "run_loop ?w ex_test ex_options [ex_page1] ex_ctx = (r', c'')"
    by (cases "run_loop ?w ex_test ex_options [ex_page1] ex_ctx")
  have "filter is_DidRunPageSet (new_events ex_ctx c') =
          (if r0 = None then [DidRunPageSet (tab (state c1)) (results_for_current_run c1)] else [])"
    using C6_finalize_only_after_normal_completion [OF a b] by blast
  then have "filter is_DidRunPageSet (new_events ex_ctx c') = [DidRunPageSet (Some 0) OutResults]"
    by (simp only: a2 if_True simp_thms)
  moreover have "filter is_DidRunPageSet (new_events ex_ctx c'') =
          (if r0' = None then [DidRunPageSet (tab (state c1')) (results_for_current_run c1')] else [])
        \<and> (r0' \<noteq> None \<longrightarrow> r' = r0')"
    using C6_finalize_only_after_normal_completion [OF c d] by blast
  then have "filter is_DidRunPageSet (new_events ex_ctx c'') = [] \<and> r' = Some BrowserGoneException"
    by (simp add: c2)
  ultimately show ?thesis
    by (simp only: b d fst_conv snd_conv simp_thms)
qed


section \<open>The archive check and pages served from files\<close>

lemma archive_check_without_not_file:
  "q \<in> set (snd (archive_check w opts ps)) \<Longrightarrow> scheme w (url q) \<noteq> ''file''"
  by (induction ps) (auto simp: Let_def split: prod.splits if_splits)

lemma archive_check_failures_not_file:
  "AddFailure s q r \<in> set (fst (archive_check w opts ps)) \<Longrightarrow> scheme w (url q) \<noteq> ''file''"
  by (induction ps) (auto simp: Let_def split: prod.splits if_splits)

text \<open>
  C10: a page whose URL has the scheme \<^verbatim>\<open>file\<close> is never put on
  \<^verbatim>\<open>pages_without_archives\<close>, every occurrence of it stays in the list of pages to run,
  the archive check records no failure for it, and no call of the whole run records a
  failure with an archive message for it, whatever the options and its archive path.
\<close>

theorem C10_file_pages_skip_archive_check:
  assumes "scheme w (url p) = ''file''"
  shows "p \<notin> set (snd (archive_check w opts pages))
       \<and> filter (\<lambda>q. q = p) (runnable_pages w opts pages) = filter (\<lambda>q. q = p) pages
       \<and> (\<forall>s r. AddFailure s p r \<notin> set (fst (archive_check w opts pages)))
       \<and> (\<forall>s m. AddFailure s p (Msg m)
                  \<notin> set (snd (Run w reorder is_selected rnd page_set called t opts)))"
proof -
  have a: "p \<notin> set (snd (archive_check w opts pages))"
    using assms archive_check_without_not_file by blast
  have b: "\<forall>s r. AddFailure s p r \<notin> set (fst (archive_check w opts pages))"
    using assms archive_check_failures_not_file by blast
  have c: "filter (\<lambda>q. q = p) (runnable_pages w opts pages) = filter (\<lambda>q. q = p) pages"
    unfolding runnable_pages_def filter_filter
    by (rule filter_cong) (use a in auto)
  have d: "AddFailure s p (Msg m)
             \<notin> set (snd (Run w reorder is_selected rnd page_set called t opts))" for s m
  proof
    assume "AddFailure s p (Msg m) \<in> set (snd (Run w reorder is_selected rnd page_set called t opts))"
    then have "\<exists>pages0. AddFailure s p (Msg m) \<in> set (fst (archive_check w opts pages0))"
      using Run_events by fastforce
    then show False
      using assms archive_check_failures_not_file by blast
  qed
  from a b c d show ?thesis by blast
qed

theorem C10_file_pages_skip_archive_check_witness:
  "scheme ex_world (url ex_file_page) = ''file''
   \<and> runnable_pages ex_world (ex_options\<lparr>wpr_mode := WPR_RECORD\<rparr>) [ex_page1, ex_file_page]
       = [ex_page1, ex_file_page]
   \<and> filter (\<lambda>q. q = ex_file_page)
        (runnable_pages ex_world ex_options [ex_page1, ex_file_page])
       = filter (\<lambda>q. q = ex_file_page) [ex_page1, ex_file_page]"
proof -
  have h: "scheme ex_world (url ex_file_page) = ''file''"
    by code_simp
  have "runnable_pages ex_world (ex_options\<lparr>wpr_mode := WPR_RECORD\<rparr>) [ex_page1, ex_file_page]
       = [ex_page1, ex_file_page]"
    by code_simp
  with h C10_file_pages_skip_archive_check [OF h, of ex_options "[ex_page1, ex_file_page]"]
  show ?thesis by blast
qed

section \<open>Sequential output names\<close>

declare digits.simps [simp del]

lemma sequential_loop_free:
  "glob (output_name b i @ ''.*'') = [] \<Longrightarrow> sequential_loop glob b i = Some (output_name b i)"
  by (subst sequential_loop.simps) (simp only: if_True refl)

lemma sequential_loop_taken:
  "glob (output_name b i @ ''.*'') \<noteq> [] \<Longrightarrow>
   sequential_loop glob b i = sequential_loop glob b (Suc i)"
  by (subst sequential_loop.simps) simp

lemma sequential_loop_found:
  "glob (output_name b (i + d) @ ''.*'') = [] \<Longrightarrow>
   (\<forall>j<d. glob (output_name b (i + j) @ ''.*'') \<noteq> []) \<Longrightarrow>
   sequential_loop glob b i = Some (output_name b (i + d))"
proof (induction d arbitrary: i)
  case 0
  then show ?case by (simp add: sequential_loop_free)
next
  case (Suc d)
  have "0 < Suc d" by simp
  with Suc.prems(2) have "glob (output_name b (i + 0) @ ''.*'') \<noteq> []" by blast
  then have occupied: "glob (output_name b i @ ''.*'') \<noteq> []" by simp
  have free: "glob (output_name b (Suc i + d) @ ''.*'') = []"
    using Suc.prems(1) by simp
  have rest: "\<forall>j<d. glob (output_name b (Suc i + j) @ ''.*'') \<noteq> []"
  proof (intro allI impI)
    fix j assume "j < d"
    then have "Suc j < Suc d" by simp
    with Suc.prems(2) have "glob (output_name b (i + Suc j) @ ''.*'') \<noteq> []"
      by blast
    then show "glob (output_name b (Suc i + j) @ ''.*'') \<noteq> []" by simp
  qed
  have "sequential_loop glob b (Suc i) = Some (output_name b (Suc i + d))"
    using free rest by (rule Suc.IH)
  then show ?case
    using occupied by (simp add: sequential_loop_taken)
qed


lemma GetSequentialFileName_least:
  assumes "glob (output_name b n @ ''.*'') = []"
  shows "GetSequentialFileName glob b =
           Some (output_name b (LEAST i. glob (output_name b i @ ''.*'') = []))"
proof -
  define m where "m = (LEAST i. glob (output_name b i @ ''.*'') = [])"
  have l: "glob (output_name b m @ ''.*'') = []"
    unfolding m_def using assms by (rule LeastI)
  have below: "glob (output_name b j @ ''.*'') \<noteq> []" if "j < m" for j
    using that not_less_Least unfolding m_def by blast
  have "glob (output_name b (0 + m) @ ''.*'') = []"
    using l by simp
  moreover have "\<forall>j<m. glob (output_name b (0 + j) @ ''.*'') \<noteq> []"
    using below by simp
  ultimately have "sequential_loop glob b 0 = Some (output_name b (0 + m))"
    by (rule sequential_loop_found)
  then show ?thesis by (simp add: GetSequentialFileName_def m_def)
qed

lemma digits_small: "n < 10 \<Longrightarrow> digits n = [digit_char n]"
  by (subst digits.simps) simp

lemma fmt03d_first: "fmt03d 0 = ''000'' \<and> fmt03d 1 = ''001'' \<and> fmt03d 2 = ''002''"
  by code_simp


lemma glob_files_dotstar:
  "glob_files files (stem @ ''.*'') =
     filter (\<lambda>f. prefix (stem @ ''.'') f \<and> CHR ''/'' \<notin> set (drop (Suc (length stem)) f)) files"
  by (simp add: glob_files_def)

lemma glob_files_snoc:
  "glob_files (files @ [f]) (stem @ ''.*'') =
     glob_files files (stem @ ''.*'')
     @ (if prefix (stem @ ''.'') f \<and> CHR ''/'' \<notin> set (drop (Suc (length stem)) f)
        then [f] else [])"
  by (simp add: glob_files_dotstar)

lemma glob_files_snoc2:
  "glob_files (files @ [f, g]) (stem @ ''.*'') =
     glob_files files (stem @ ''.*'')
     @ (if prefix (stem @ ''.'') f \<and> CHR ''/'' \<notin> set (drop (Suc (length stem)) f)
        then [f] else [])
     @ (if prefix (stem @ ''.'') g \<and> CHR ''/'' \<notin> set (drop (Suc (length stem)) g)
        then [g] else [])"
  by (simp add: glob_files_dotstar)

lemma digit_char_0: "digit_char 0 = CHR ''0''"
  by code_simp

lemma fmt03d_digits:
  assumes "n < 1000"
  shows "fmt03d n = [digit_char (n div 100), digit_char (n div 10 mod 10), digit_char (n mod 10)]"
proof -
  consider "n < 10" | "10 \<le> n" "n < 100" | "100 \<le> n"
    by linarith
  then show ?thesis
  proof cases
    case 1
    then show ?thesis
      by (simp add: fmt03d_def digits_small digit_char_0 numeral_3_eq_3)
  next
    case 2
    have "n div 10 < 10" using 2 by simp
    then have "digits (n div 10) = [digit_char (n div 10)]" by (rule digits_small)
    then have "digits n = [digit_char (n div 10), digit_char (n mod 10)]"
      using 2 by (subst digits.simps) simp
    moreover have "n div 100 = 0" "n div 10 mod 10 = n div 10"
      using 2 by simp_all
    ultimately show ?thesis
      by (simp add: fmt03d_def digit_char_0)
  next
    case 3
    have a: "\<not> n div 10 < 10" using 3 by simp
    have b: "n div 10 div 10 < 10" using assms by simp
    have "digits (n div 10) = digits (n div 10 div 10) @ [digit_char (n div 10 mod 10)]"
      using a by (subst digits.simps) simp
    also have "digits (n div 10 div 10) = [digit_char (n div 10 div 10)]"
      using b by (rule digits_small)
    finally have "digits (n div 10) = [digit_char (n div 100), digit_char (n div 10 mod 10)]"
      by (simp add: div_mult2_eq [symmetric])
    then have "digits n = [digit_char (n div 100), digit_char (n div 10 mod 10), digit_char (n mod 10)]"
      using 3 by (subst digits.simps) simp
    then show ?thesis by (simp add: fmt03d_def)
  qed
qed

lemma three_writes:
  assumes td: "trace_dir opts = Some td"
    and rep: "page_repeat opts \<noteq> 1 \<or> pageset_repeat opts \<noteq> 1"
    and b: "b = path_join td (url_as_file_safe_name p)"
    and empty: "\<forall>i<3. glob_files files (output_name b i @ ''.*'') = []"
  shows "write_trace opts p files = Some (b @ ''_000.json'', files @ [b @ ''_000.json''])"
    and "write_trace opts p (files @ [b @ ''_000.json''])
           = Some (b @ ''_001.json'', files @ [b @ ''_000.json'', b @ ''_001.json''])"
    and "write_trace opts p (files @ [b @ ''_000.json'', b @ ''_001.json''])
           = Some (b @ ''_002.json'',
                   files @ [b @ ''_000.json'', b @ ''_001.json'', b @ ''_002.json''])"
proof -
  have e0: "glob_files files (output_name b 0 @ ''.*'') = []"
    and e1: "glob_files files (output_name b 1 @ ''.*'') = []"
    and e2: "glob_files files (output_name b 2 @ ''.*'') = []"
    using empty by simp_all
  have n0: "output_name b 0 = b @ ''_000''" and n1: "output_name b 1 = b @ ''_001''"
    and n2: "output_name b 2 = b @ ''_002''"
    using fmt03d_first by (simp_all add: output_name_def)
  have n1': "output_name b (Suc 0) = b @ ''_001''"
    using n1 by simp
  let ?f1 = "files @ [b @ ''_000.json'']"
  let ?f2 = "files @ [b @ ''_000.json'', b @ ''_001.json'']"
  have tf: "trace_file g opts p = map_option (\<lambda>n. n @ ''.json'') (GetSequentialFileName g b)" for g
    using td rep b by (auto simp: trace_file_def Let_def)
  have "GetSequentialFileName (glob_files files) b = Some (output_name b 0)"
    using e0 by (simp add: GetSequentialFileName_def sequential_loop_free)
  then show "write_trace opts p files = Some (b @ ''_000.json'', files @ [b @ ''_000.json''])"
    by (simp add: write_trace_def tf n0)
  have t10: "glob_files ?f1 (output_name b 0 @ ''.*'') \<noteq> []"
    by (simp only: glob_files_snoc) (simp add: n0)
  have f11: "glob_files ?f1 (output_name b 1 @ ''.*'') = []"
    by (simp only: glob_files_snoc e1 append_Nil) (simp add: n1 n1')
  have "sequential_loop (glob_files ?f1) b 0 = Some (output_name b (0 + 1))"
    using f11 t10 by (intro sequential_loop_found) simp_all
  then show "write_trace opts p ?f1 = Some (b @ ''_001.json'', ?f2)"
    by (simp add: write_trace_def tf n1 n1' GetSequentialFileName_def)
  have t20: "glob_files ?f2 (output_name b 0 @ ''.*'') \<noteq> []"
    by (simp only: glob_files_snoc2) (simp add: n0)
  have t21: "glob_files ?f2 (output_name b 1 @ ''.*'') \<noteq> []"
    by (simp only: glob_files_snoc2) (simp add: n1 n1')
  have f22: "glob_files ?f2 (output_name b 2 @ ''.*'') = []"
    by (simp only: glob_files_snoc2 e2 append_Nil) (simp add: n2)
  have "\<forall>j<2. glob_files ?f2 (output_name b (0 + j) @ ''.*'') \<noteq> []"
    using t20 t21 by (auto simp: less_2_cases_iff)
  moreover have "glob_files ?f2 (output_name b (0 + 2) @ ''.*'') = []"
    using f22 by (simp only: add_0)
  ultimately have "sequential_loop (glob_files ?f2) b 0 = Some (output_name b (0 + 2))"
    by (intro sequential_loop_found)
  then have "sequential_loop (glob_files ?f2) b 0 = Some (b @ ''_002'')"
    by (simp only: add_0 n2)
  then show "write_trace opts p ?f2 = Some (b @ ''_002.json'',
                   files @ [b @ ''_000.json'', b @ ''_001.json'', b @ ''_002.json''])"
    by (simp add: write_trace_def tf n2 GetSequentialFileName_def)
qed


lemma glob_files_Nil: "glob_files [] pat = []"
  by (simp add: glob_files_def split: list.splits)

lemma of_char_digit_char: "d < 10 \<Longrightarrow> of_char (digit_char d) = 48 + d"
  by (simp add: digit_char_def)

lemma digit_value_snoc:
  "digit_value (s @ [ch]) = 10 * digit_value s + (of_char ch - 48)"
  by (simp add: digit_value_def)

lemma digit_value_digits: "digit_value (digits n) = n"
proof (induction n rule: digits.induct)
  case (1 n)
  show ?case
  proof (cases "n < 10")
    case True
    then show ?thesis
      by (simp add: digits_small digit_value_def of_char_digit_char)
  next
    case False
    have "digits n = digits (n div 10) @ [digit_char (n mod 10)]"
      using False by (subst digits.simps) simp
    then have "digit_value (digits n) = 10 * digit_value (digits (n div 10)) + n mod 10"
      by (simp add: digit_value_snoc of_char_digit_char)
    then show ?thesis using 1 False by simp
  qed
qed

lemma digit_value_zeros: "digit_value (replicate k (CHR ''0'') @ s) = digit_value s"
proof (induction k)
  case 0
  then show ?case by simp
next
  case (Suc k)
  have "foldl (\<lambda>a ch. 10 * a + (of_char ch - 48)) 0 (CHR ''0'' # replicate k (CHR ''0'') @ s)
        = foldl (\<lambda>a ch. 10 * a + (of_char ch - 48)) (0::nat) (replicate k (CHR ''0'') @ s)"
    by simp
  then show ?case using Suc by (simp add: digit_value_def)
qed

lemma digit_value_fmt03d: "digit_value (fmt03d n) = n"
  by (simp add: fmt03d_def digit_value_zeros digit_value_digits)

lemma fmt03d_inj: "fmt03d n = fmt03d m \<Longrightarrow> n = m"
  using digit_value_fmt03d by metis

lemma digits_no_dot: "CHR ''.'' \<notin> set (digits n)"
proof (induction n rule: digits.induct)
  case (1 n)
  have dc: "digit_char d \<noteq> CHR ''.''" if "d < 10" for d
  proof
    assume "digit_char d = CHR ''.''"
    then have "of_char (digit_char d) = (of_char (CHR ''.'') :: nat)" by simp
    then show False using that by (simp add: of_char_digit_char)
  qed
  show ?case
  proof (cases "n < 10")
    case True
    then show ?thesis using dc [of n] by (simp add: digits_small)
  next
    case False
    have "digits n = digits (n div 10) @ [digit_char (n mod 10)]"
      using False by (subst digits.simps) simp
    then show ?thesis using 1 False dc [of "n mod 10"] by auto
  qed
qed

lemma fmt03d_no_dot: "CHR ''.'' \<notin> set (fmt03d n)"
  using digits_no_dot by (auto simp: fmt03d_def)

lemma prefix_snoc_same:
  assumes "prefix (xs @ [ch]) (ys @ [ch])" and "ch \<notin> set ys"
  shows "xs = ys"
proof -
  have "xs @ [ch] = ys @ [ch] \<or> prefix (xs @ [ch]) ys"
    using assms(1) by (simp add: prefix_snoc)
  then show ?thesis
  proof
    assume "xs @ [ch] = ys @ [ch]"
    then show ?thesis by simp
  next
    assume "prefix (xs @ [ch]) ys"
    then have "ch \<in> set ys" by (auto simp: prefix_def)
    with assms(2) show ?thesis by simp
  qed
qed

lemma output_names_apart:
  assumes "prefix (output_name b n @ ''.'') f" and "prefix (output_name b m @ ''.'') f"
  shows "n = m"
proof -
  have "prefix (output_name b n @ ''.'') (output_name b m @ ''.'')
      \<or> prefix (output_name b m @ ''.'') (output_name b n @ ''.'')"
    using assms by (rule prefix_same_cases)
  then have "prefix (fmt03d n @ ''.'') (fmt03d m @ ''.'') \<or> prefix (fmt03d m @ ''.'') (fmt03d n @ ''.'')"
    by (simp add: output_name_def)
  then have "fmt03d n = fmt03d m"
    using prefix_snoc_same [of "fmt03d n" "CHR ''.''" "fmt03d m"]
          prefix_snoc_same [of "fmt03d m" "CHR ''.''" "fmt03d n"] fmt03d_no_dot
    by auto
  then show ?thesis by (rule fmt03d_inj)
qed

lemma free_index_exists: "\<exists>n. glob_files files (output_name b n @ ''.*'') = []"
proof (rule ccontr)
  assume "\<not> (\<exists>n. glob_files files (output_name b n @ ''.*'') = [])"
  then have "\<forall>n. \<exists>f. f \<in> set files \<and> prefix (output_name b n @ ''.'') f"
    by (auto simp: glob_files_dotstar filter_empty_conv)
  then obtain g where g: "\<And>n. g n \<in> set files \<and> prefix (output_name b n @ ''.'') (g n)"
    by metis
  have "inj g"
  proof (rule injI)
    fix n m assume "g n = g m"
    then show "n = m" using g [of n] g [of m] output_names_apart by metis
  qed
  moreover have "finite (range g)"
    using g by (intro finite_subset [of "range g" "set files"]) auto
  ultimately have "finite (UNIV :: nat set)"
    by (rule finite_imageD [rotated])
  then show False by simp
qed

lemma GetSequentialFileName_total:
  "\<exists>n. GetSequentialFileName (glob_files files) b = Some (output_name b n)
       \<and> glob_files files (output_name b n @ ''.*'') = []
       \<and> (\<forall>i<n. glob_files files (output_name b i @ ''.*'') \<noteq> [])"
proof -
  let ?P = "\<lambda>i. glob_files files (output_name b i @ ''.*'') = []"
  obtain n where n: "?P n" using free_index_exists by blast
  have "GetSequentialFileName (glob_files files) b = Some (output_name b (LEAST i. ?P i))"
    using n by (rule GetSequentialFileName_least)
  moreover have "?P (LEAST i. ?P i)" using n by (rule LeastI)
  moreover have "\<forall>i<(LEAST i. ?P i). \<not> ?P i" using not_less_Least by blast
  ultimately show ?thesis by blast
qed

text \<open>
  C9: with a repeat count other than 1, the trace is written to, and the profiler is
  given, the safe name of the page in the output directory followed by \<open>_NNN\<close> (and
  \<open>.json\<close> for the trace), where \<open>NNN\<close> is the least index for which \<^verbatim>\<open>glob\<close> finds no
  path \<open>name_NNN.*\<close>, provided some index is free (otherwise the loop does not end);
  in a directory of finitely many paths some index is free, so the search returns;
  below 1000 the index is printed as its three decimal digits; and three traces written
  in a row for one page, into a directory with no such paths, are named \<open>_000\<close>,
  \<open>_001\<close> and \<open>_002\<close>.
\<close>

theorem C9_sequential_file_names:
  assumes "page_repeat opts \<noteq> 1 \<or> pageset_repeat opts \<noteq> 1"
  shows "(trace_dir opts = Some td \<and> tb = path_join td (url_as_file_safe_name p)
            \<and> glob (output_name tb n @ ''.*'') = [] \<longrightarrow>
          trace_file glob opts p =
            Some (output_name tb (LEAST i. glob (output_name tb i @ ''.*'') = []) @ ''.json''))
       \<and> (profiler_dir opts = Some pd \<and> pb = path_join pd (url_as_file_safe_name p)
            \<and> glob (output_name pb m @ ''.*'') = [] \<longrightarrow>
          profiler_output_file glob opts p =
            Some (output_name pb (LEAST i. glob (output_name pb i @ ''.*'') = [])))
       \<and> (\<exists>n. GetSequentialFileName (glob_files files) b = Some (output_name b n)
              \<and> glob_files files (output_name b n @ ''.*'') = []
              \<and> (\<forall>i<n. glob_files files (output_name b i @ ''.*'') \<noteq> []))
       \<and> output_name b i = b @ ''_'' @ fmt03d i
       \<and> (i < 1000 \<longrightarrow>
            fmt03d i = [digit_char (i div 100), digit_char (i div 10 mod 10), digit_char (i mod 10)])
       \<and> (trace_dir opts = Some td \<and> tb = path_join td (url_as_file_safe_name p)
            \<and> (\<forall>j<3. glob_files files (output_name tb j @ ''.*'') = []) \<longrightarrow>
          write_trace opts p files = Some (tb @ ''_000.json'', files @ [tb @ ''_000.json''])
          \<and> write_trace opts p (files @ [tb @ ''_000.json''])
              = Some (tb @ ''_001.json'', files @ [tb @ ''_000.json'', tb @ ''_001.json''])
          \<and> write_trace opts p (files @ [tb @ ''_000.json'', tb @ ''_001.json''])
              = Some (tb @ ''_002.json'',
                      files @ [tb @ ''_000.json'', tb @ ''_001.json'', tb @ ''_002.json'']))"
proof -
  have a: "trace_dir opts = Some td \<and> tb = path_join td (url_as_file_safe_name p)
            \<and> glob (output_name tb n @ ''.*'') = [] \<longrightarrow>
          trace_file glob opts p =
            Some (output_name tb (LEAST i. glob (output_name tb i @ ''.*'') = []) @ ''.json'')"
  proof (intro impI, elim conjE)
    assume td: "trace_dir opts = Some td" and tb: "tb = path_join td (url_as_file_safe_name p)"
      and free: "glob (output_name tb n @ ''.*'') = []"
    have "GetSequentialFileName glob tb =
            Some (output_name tb (LEAST i. glob (output_name tb i @ ''.*'') = []))"
      using free by (rule GetSequentialFileName_least)
    then show "trace_file glob opts p =
            Some (output_name tb (LEAST i. glob (output_name tb i @ ''.*'') = []) @ ''.json'')"
      using assms td tb by (auto simp: trace_file_def Let_def)
  qed
  have b: "profiler_dir opts = Some pd \<and> pb = path_join pd (url_as_file_safe_name p)
            \<and> glob (output_name pb m @ ''.*'') = [] \<longrightarrow>
          profiler_output_file glob opts p =
            Some (output_name pb (LEAST i. glob (output_name pb i @ ''.*'') = []))"
  proof (intro impI, elim conjE)
    assume pd: "profiler_dir opts = Some pd" and pb: "pb = path_join pd (url_as_file_safe_name p)"
      and free: "glob (output_name pb m @ ''.*'') = []"
    have "GetSequentialFileName glob pb =
            Some (output_name pb (LEAST i. glob (output_name pb i @ ''.*'') = []))"
      using free by (rule GetSequentialFileName_least)
    then show "profiler_output_file glob opts p =
            Some (output_name pb (LEAST i. glob (output_name pb i @ ''.*'') = []))"
      using assms pd pb by (auto simp: profiler_output_file_def Let_def)
  qed
  have c: "output_name b i = b @ ''_'' @ fmt03d i"
    by (simp add: output_name_def)
  have d: "i < 1000 \<longrightarrow>
            fmt03d i = [digit_char (i div 100), digit_char (i div 10 mod 10), digit_char (i mod 10)]"
    using fmt03d_digits by blast
  have e: "trace_dir opts = Some td \<and> tb = path_join td (url_as_file_safe_name p)
            \<and> (\<forall>j<3. glob_files files (output_name tb j @ ''.*'') = []) \<longrightarrow>
          write_trace opts p files = Some (tb @ ''_000.json'', files @ [tb @ ''_000.json''])
          \<and> write_trace opts p (files @ [tb @ ''_000.json''])
              = Some (tb @ ''_001.json'', files @ [tb @ ''_000.json'', tb @ ''_001.json''])
          \<and> write_trace opts p (files @ [tb @ ''_000.json'', tb @ ''_001.json''])
              = Some (tb @ ''_002.json'',
                      files @ [tb @ ''_000.json'', tb @ ''_001.json'', tb @ ''_002.json''])"
    using three_writes [OF _ assms, of td tb p files] by blast
  have f: "\<exists>n. GetSequentialFileName (glob_files files) b = Some (output_name b n)
              \<and> glob_files files (output_name b n @ ''.*'') = []
              \<and> (\<forall>i<n. glob_files files (output_name b i @ ''.*'') \<noteq> [])"
    by (rule GetSequentialFileName_total)
  from a b f c d e show ?thesis by (intro conjI)
qed

theorem C9_sequential_file_names_witness:
  "page_repeat (ex_options\<lparr>trace_dir := Some ''traces'', page_repeat := 2\<rparr>) = 2
   \<and> write_trace (ex_options\<lparr>trace_dir := Some ''traces'', page_repeat := 2\<rparr>) ex_page1 []
       = Some (''traces/a_1_000.json'', [''traces/a_1_000.json''])
   \<and> write_trace (ex_options\<lparr>trace_dir := Some ''traces'', page_repeat := 2\<rparr>) ex_page1
         [''traces/a_1_000.json'']
       = Some (''traces/a_1_001.json'', [''traces/a_1_000.json'', ''traces/a_1_001.json''])
   \<and> write_trace (ex_options\<lparr>trace_dir := Some ''traces'', page_repeat := 2\<rparr>) ex_page1
         [''traces/a_1_000.json'', ''traces/a_1_001.json'']
       = Some (''traces/a_1_002.json'',
               [''traces/a_1_000.json'', ''traces/a_1_001.json'', ''traces/a_1_002.json''])"
proof -
  let ?o = "ex_options\<lparr>trace_dir := Some ''traces'', page_repeat := 2\<rparr>"
  have h: "page_repeat ?o \<noteq> 1 \<or> pageset_repeat ?o \<noteq> 1"
    by (simp add: ex_options_def)
  have td: "trace_dir ?o = Some ''traces''"
    by (simp add: ex_options_def)
  have tb: "''traces/a_1'' = path_join ''traces'' (url_as_file_safe_name ex_page1)"
    by (simp add: path_join_def ex_page1_def)
  have emp: "\<forall>j<3. glob_files [] (output_name ''traces/a_1'' j @ ''.*'') = []"
    by (simp add: glob_files_Nil)
  have "write_trace ?o ex_page1 [] =
          Some (''traces/a_1'' @ ''_000.json'', [] @ [''traces/a_1'' @ ''_000.json''])
      \<and> write_trace ?o ex_page1 ([] @ [''traces/a_1'' @ ''_000.json''])
          = Some (''traces/a_1'' @ ''_001.json'',
                  [] @ [''traces/a_1'' @ ''_000.json'', ''traces/a_1'' @ ''_001.json''])
      \<and> write_trace ?o ex_page1 ([] @ [''traces/a_1'' @ ''_000.json'', ''traces/a_1'' @ ''_001.json''])
          = Some (''traces/a_1'' @ ''_002.json'',
                  [] @ [''traces/a_1'' @ ''_000.json'', ''traces/a_1'' @ ''_001.json'',
                        ''traces/a_1'' @ ''_002.json''])"
    using C9_sequential_file_names [OF h, where td = "''traces''" and tb = "''traces/a_1''"
         and p = ex_page1 and files = "[]"] td tb emp
    by blast
  moreover have "page_repeat ?o = 2"
    by (simp add: ex_options_def)
  ultimately show ?thesis by simp
qed

section \<open>The retry loop\<close>

lemma close_state_closed:
  "browser (state (snd (close_state c))) = None \<and> tab (state (snd (close_state c))) = None
   \<and> \<not> is_tracing (state (snd (close_state c)))"
  using Close_closed [of "state c"] by (simp add: close_state_eq)

lemma try_loop_gone:
  assumes "fst (attempt w t opts k p c) = Some BrowserGoneException"
  shows "try_loop w t opts p (Suc n) k c =
           (if n = 0
            then (Some BrowserGoneException, Suc k, snd (close_state (snd (attempt w t opts k p c))))
            else try_loop w t opts p n (Suc k) (snd (close_state (snd (attempt w t opts k p c)))))"
proof -
  obtain c1 where a: "attempt w t opts k p c = (Some BrowserGoneException, c1)"
    using assms by (cases "attempt w t opts k p c") simp
  obtain r2 c2 where cl: "close_state c1 = (r2, c2)"
    by (cases "close_state c1")
  show ?thesis
    using a cl by simp
qed

lemma try_loop_count:
  "k \<le> fst (snd (try_loop w t opts p n k c)) \<and> fst (snd (try_loop w t opts p n k c)) \<le> k + n
   \<and> (0 < n \<longrightarrow> k < fst (snd (try_loop w t opts p n k c)))
   \<and> (fst (try_loop w t opts p n k c) = Some BrowserGoneException \<longrightarrow>
        fst (snd (try_loop w t opts p n k c)) = k + n)"
proof (induction n arbitrary: k c)
  case 0
  then show ?case by simp
next
  case (Suc n)
  obtain r c1 where a: "attempt w t opts k p c = (r, c1)"
    by (cases "attempt w t opts k p c")
  show ?case
  proof (cases "r = Some BrowserGoneException")
    case True
    then have g: "fst (attempt w t opts k p c) = Some BrowserGoneException"
      using a by simp
    show ?thesis
    proof (cases "n = 0")
      case True
      then show ?thesis using try_loop_gone [OF g, of n] by simp
    next
      case False
      then have "try_loop w t opts p (Suc n) k c =
                   try_loop w t opts p n (Suc k) (snd (close_state c1))"
        using try_loop_gone [OF g, of n] a by simp
      moreover note Suc.IH [of "Suc k" "snd (close_state c1)"]
      ultimately show ?thesis using False by auto
    qed
  next
    case False
    then show ?thesis
      using a by (cases r; cases "the r") auto
  qed
qed

lemma run_pages_abort:
  "fst (run_page w t opts p k c) \<noteq> None \<Longrightarrow>
   run_pages w t opts (p # ps) k c = run_page w t opts p k c"
  by (cases "run_page w t opts p k c") (auto split: option.splits)

lemma SetupBrowser_creates:
  assumes "raises w k S_Create = None" and "tab (state c) = None"
  shows "\<exists>rest. new_events c (snd (SetupBrowser w k c)) = BrowserCreate k # rest"
proof -
  let ?c1 = "c\<lparr>state := (state c)\<lparr>browser := Some k\<rparr>, trace := trace c @ [BrowserCreate k]\<rparr>"
  let ?body = "steps [
               call w k S_SetUpBrowser [],
               (\<lambda>c. if first_browser (state c)
                    then (case call w k S_WarnIfMissingCredentials [] c of
                            (Some e, c') \<Rightarrow> (Some e, c')
                          | (None, c') \<Rightarrow>
                              (None, c'\<lparr>state := (state c')\<lparr>first_browser := False\<rparr>\<rparr>))
                    else skip c),
               call w k S_SetReplayArchivePath []]"
  have eq: "SetupBrowser w k c = ?body ?c1"
    using assms by (simp add: SetupBrowser_def)
  have "good ?body"
    by (rule good_steps)
       (auto simp: good_def call_def skip_def grows_def extends_def new_events_def split: option.splits)
  then have "grows ?c1 (snd (?body ?c1))"
    by (simp add: good_def)
  then have "trace (snd (?body ?c1)) = trace c @ BrowserCreate k # new_events ?c1 (snd (?body ?c1))"
    by (simp add: grows_def extends_def)
  then have "new_events c (snd (?body ?c1)) = BrowserCreate k # new_events ?c1 (snd (?body ?c1))"
    by (rule new_events_append)
  then show ?thesis using eq by simp
qed


lemma new_events_trans:
  "grows c c' \<Longrightarrow> grows c' c'' \<Longrightarrow> new_events c c'' = new_events c c' @ new_events c' c''"
proof -
  assume a: "grows c c'" and b: "grows c' c''"
  have "trace c'' = trace c @ (new_events c c' @ new_events c' c'')"
    using a b by (simp add: grows_def extends_def)
  then show ?thesis by (rule new_events_append)
qed

lemma prefix_grows:
  "grows c c' \<Longrightarrow> grows c' c'' \<Longrightarrow> prefix evs (new_events c c') \<Longrightarrow>
   prefix evs (new_events c c'')"
  by (simp add: new_events_trans)

lemma steps_first_prefix:
  assumes f: "good f" and fs: "good (steps fs)"
    and p: "prefix evs (new_events c (snd (f c)))"
  shows "prefix evs (new_events c (snd (steps (f # fs) c)))"
proof -
  obtain r c1 where fc: "f c = (r, c1)" by (cases "f c")
  have g1: "grows c c1" using f fc by (rule goodD)
  have p1: "prefix evs (new_events c c1)" using p fc by simp
  show ?thesis
  proof (cases r)
    case None
    have "grows c1 (snd (steps fs c1))" using fs by (simp add: good_def)
    with g1 have "prefix evs (new_events c (snd (steps fs c1)))"
      using p1 by (rule prefix_grows)
    then show ?thesis using fc None by (simp add: steps_Cons)
  next
    case (Some e)
    then show ?thesis using fc p1 by (simp add: steps_Cons)
  qed
qed

text \<open>When no call of the session set-up raises, it makes exactly one call or none.\<close>

lemma prepare_session_quiet:
  assumes q: "\<forall>s \<in> set session_sites. raises w k s = None"
    and b: "browser (state c) = None \<longrightarrow> tab (state c) = None"
  shows "fst (prepare_session w opts k c) = None
       \<and> new_events c (snd (prepare_session w opts k c)) =
            (if browser (state c) = None then [BrowserCreate k] else [])
       \<and> trace (snd (prepare_session w opts k c)) = trace c @
            (if browser (state c) = None then [BrowserCreate k] else [])
       \<and> browser (state (snd (prepare_session w opts k c))) =
            (if browser (state c) = None then Some k else browser (state c))
       \<and> tab (state (snd (prepare_session w opts k c))) =
            (if tab (state c) = None then Some k else tab (state c))"
proof -
  have r: "raises w k S_Create = None" "raises w k S_SetUpBrowser = None"
    "raises w k S_WarnIfMissingCredentials = None" "raises w k S_SetReplayArchivePath = None"
    "raises w k S_TabsNew = None" "raises w k S_CloseExtraTabs = None"
    "raises w k S_WaitForThermalThrottling = None" "raises w k S_StartTracing = None"
    "raises w k S_StartProfiling = None"
    using q by (simp_all add: session_sites_def)
  show ?thesis
    using b
    by (cases "browser (state c)"; cases "tab (state c)")
       (simp_all add: prepare_session_def SetupBrowser_def SetupTracingTab_def steps.simps
          call_def skip_def r new_events_def)
qed

lemma RunPage_starts:
  "prefix [CanRunForPage p] (new_events c (snd (RunPage w k p c)))"
proof -
  let ?c0 = "c\<lparr>trace := trace c @ [CanRunForPage p]\<rparr>"
  have "grows ?c0 (snd (RunPage w k p c))" by (rule RunPage_grows_after_check)
  then have "trace (snd (RunPage w k p c)) =
               trace c @ CanRunForPage p # new_events ?c0 (snd (RunPage w k p c))"
    by (simp add: grows_def extends_def)
  then have "new_events c (snd (RunPage w k p c)) =
               CanRunForPage p # new_events ?c0 (snd (RunPage w k p c))"
    by (rule new_events_append)
  then show ?thesis by simp
qed

lemma run_guarded_starts:
  "prefix [CanRunForPage p] (new_events c (snd (run_guarded w opts k p c)))"
proof -
  have first: "prefix [CanRunForPage p]
                 (new_events c (snd (steps [RunPage w k p, call w k S_CheckThermalThrottling []] c)))"
    by (rule steps_first_prefix)
       (auto simp: good_RunPage RunPage_starts intro!: good_steps good_call)
  obtain r c1 where s: "steps [RunPage w k p, call w k S_CheckThermalThrottling []] c = (r, c1)"
    by (cases "steps [RunPage w k p, call w k S_CheckThermalThrottling []] c")
  have "good (steps [RunPage w k p, call w k S_CheckThermalThrottling []])"
    by (rule good_steps) (auto simp: good_RunPage good_call)
  then have g1: "grows c c1" using s by (rule goodD)
  have p1: "prefix [CanRunForPage p] (new_events c c1)" using first s by simp
  have g2: "prefix [CanRunForPage p] (new_events c (snd (steps [f, close_state] c1)))"
    if "good f" for f
  proof -
    have "good (steps [f, close_state])"
      by (rule good_steps) (use that in \<open>auto simp: good_close_state\<close>)
    then have "grows c1 (snd (steps [f, close_state] c1))"
      by (simp add: good_def)
    with g1 show ?thesis using p1 by (rule prefix_grows)
  qed
  show ?thesis
    using s p1 g2 [OF good_call [of "[]" w k S_GetStandardOutput]] g2 [OF good_skip]
    by (simp add: run_guarded_def split: option.splits fault.splits)
qed


lemma attempt_parts:
  "good (steps [run_guarded w opts k p,
       (if truthy (trace_dir opts) then EndTracing w k else skip),
       (if truthy (profiler_dir opts) then EndProfiling w k else skip),
       (if needs_browser_restart_after_each_run t then close_state else skip)])"
  by (rule good_steps)
     (auto simp: good_run_guarded good_EndTracing good_EndProfiling good_close_state good_skip)

lemma attempt_after_session:
  assumes "prepare_session w opts k c = (None, c1)"
  shows "prefix (new_events c c1 @ [CanRunForPage p]) (new_events c (snd (attempt w t opts k p c)))"
proof -
  let ?rest = "[run_guarded w opts k p,
       (if truthy (trace_dir opts) then EndTracing w k else skip),
       (if truthy (profiler_dir opts) then EndProfiling w k else skip),
       (if needs_browser_restart_after_each_run t then close_state else skip)]"
  have g1: "grows c c1" using good_prepare_session assms by (rule goodD)
  have "good (steps (tl ?rest))"
    by (rule good_steps)
       (auto simp: good_EndTracing good_EndProfiling good_close_state good_skip)
  then have p2: "prefix [CanRunForPage p] (new_events c1 (snd (steps ?rest c1)))"
    using good_run_guarded run_guarded_starts by (intro steps_first_prefix) simp_all
  have g2: "grows c1 (snd (steps ?rest c1))"
    using attempt_parts [of w opts k p t] by (simp add: good_def)
  have "new_events c (snd (steps ?rest c1)) = new_events c c1 @ new_events c1 (snd (steps ?rest c1))"
    using g1 g2 by (rule new_events_trans)
  then have "prefix (new_events c c1 @ [CanRunForPage p]) (new_events c (snd (steps ?rest c1)))"
    using p2 by simp
  moreover have "attempt w t opts k p c = steps ?rest c1"
    using assms by (simp add: attempt_def steps_Cons)
  ultimately show ?thesis by simp
qed

lemma attempt_starts:
  assumes q: "\<forall>s \<in> set session_sites. raises w k s = None"
    and b: "browser (state c) = None \<longrightarrow> tab (state c) = None"
  shows "prefix ((if browser (state c) = None then [BrowserCreate k] else []) @ [CanRunForPage p])
           (new_events c (snd (attempt w t opts k p c)))"
proof -
  obtain r c1 where ps: "prepare_session w opts k c = (r, c1)"
    by (cases "prepare_session w opts k c")
  have "r = None"
    and "new_events c c1 = (if browser (state c) = None then [BrowserCreate k] else [])"
    using prepare_session_quiet [OF q b, of opts] ps by simp_all
  then show ?thesis
    using attempt_after_session [of w opts k c c1 p t] ps by simp
qed

lemma attempt_rebuilds:
  assumes "raises w k S_Create = None"
    and "browser (state c) = None" and "tab (state c) = None"
  shows "prefix [BrowserCreate k] (new_events c (snd (attempt w t opts k p c)))"
proof -
  have sb: "prefix [BrowserCreate k] (new_events c (snd (SetupBrowser w k c)))"
    using SetupBrowser_creates [OF assms(1,3)] by auto
  have first: "prefix [BrowserCreate k]
     (new_events c (snd ((\<lambda>c. if browser (state c) = None then SetupBrowser w k c else skip c) c)))"
    using sb assms(2) by simp
  have gf: "good (\<lambda>c. if browser (state c) = None then SetupBrowser w k c else skip c)"
    using good_SetupBrowser [of w k] good_skip by (simp add: good_def)
  have ps: "prefix [BrowserCreate k] (new_events c (snd (prepare_session w opts k c)))"
    unfolding prepare_session_def
  proof (rule steps_first_prefix [OF gf _ first])
    show "good (steps [
       (\<lambda>c. if tab (state c) = None
            then (case call w k S_TabsNew [] c of
                    (Some e, c') \<Rightarrow> (Some e, c')
                  | (None, c') \<Rightarrow> (None, c'\<lparr>state := (state c')\<lparr>tab := Some k\<rparr>\<rparr>))
            else skip c),
       call w k S_CloseExtraTabs [],
       call w k S_WaitForThermalThrottling [],
       (if truthy (trace_dir opts) then SetupTracingTab w k else skip),
       (if truthy (profiler_dir opts) then call w k S_StartProfiling [] else skip)])"
      by (rule good_steps)
         (auto simp: good_def call_def skip_def grows_def extends_def new_events_def
                     SetupTracingTab_def split: option.splits)
  qed
  show ?thesis
    unfolding attempt_def
    by (rule steps_first_prefix [OF good_prepare_session attempt_parts ps])
qed

lemma try_loop_first:
  assumes "prefix evs (new_events c (snd (attempt w t opts k p c)))"
  shows "prefix evs (new_events c (snd (snd (try_loop w t opts p (Suc n) k c))))"
proof -
  obtain r c1 where a: "attempt w t opts k p c = (r, c1)"
    by (cases "attempt w t opts k p c")
  have g1: "grows c c1" using good_attempt a by (rule goodD)
  have p1: "prefix evs (new_events c c1)" using assms a by simp
  have g2: "grows c1 (snd (close_state c1))" by (rule grows_close_state)
  have p2: "prefix evs (new_events c (snd (close_state c1)))"
    using g1 g2 p1 by (rule prefix_grows)
  have g3: "grows c1 (snd (snd (try_loop w t opts p n (Suc k) (snd (close_state c1)))))"
    using g2 grows_try_loop by (rule grows_trans)
  have p3: "prefix evs (new_events c (snd (snd (try_loop w t opts p n (Suc k) (snd (close_state c1))))))"
    using g1 g3 p1 by (rule prefix_grows)
  show ?thesis
  proof (cases "r = Some BrowserGoneException")
    case True
    then have "fst (attempt w t opts k p c) = Some BrowserGoneException"
      using a by simp
    then show ?thesis
      using try_loop_gone [of w t opts k p c n] a p2 p3 by simp
  next
    case False
    then show ?thesis
      using a p1 by (cases r; cases "the r") simp_all
  qed
qed


lemma run_loop_abort:
  "fst (run_pages w t opts pages 0 c) = Some e \<Longrightarrow> fst (run_loop w t opts pages c) = Some e"
  by (cases "run_pages w t opts pages 0 c") (simp add: run_loop_def split: prod.splits)

text \<open>
  C1: a page is attempted at most three times. An attempt that ends with
  \<^verbatim>\<open>BrowserGoneException\<close> is followed by \<^verbatim>\<open>state.Close()\<close>, which leaves no tab and
  no browser; after the first and the second such attempt the same page is attempted
  again with one try less, and the new attempt first creates a browser (when creating
  does not raise); after the third the exception is raised with exactly three attempts
  made, the page loop stops without running the remaining pages, and \<^verbatim>\<open>Run\<close> raises
  it. The exception leaves the retry loop only in that way.
\<close>

theorem C1_retry_budget:
  fixes w t opts p k c ps
  defines "a1 \<equiv> attempt w t opts k p c"
    and "c1 \<equiv> snd (close_state (snd (attempt w t opts k p c)))"
  defines "a2 \<equiv> attempt w t opts (k + 1) p c1"
    and "c2 \<equiv> snd (close_state (snd (attempt w t opts (k + 1) p c1)))"
  defines "a3 \<equiv> attempt w t opts (k + 2) p c2"
    and "c3 \<equiv> snd (close_state (snd (attempt w t opts (k + 2) p c2)))"
  shows "k < fst (snd (try_loop w t opts p 3 k c))
       \<and> fst (snd (try_loop w t opts p 3 k c)) \<le> k + 3
       \<and> (fst (try_loop w t opts p 3 k c) = Some BrowserGoneException \<longrightarrow>
            fst (snd (try_loop w t opts p 3 k c)) = k + 3)
       \<and> (fst a1 = Some BrowserGoneException \<longrightarrow>
            browser (state c1) = None \<and> tab (state c1) = None
            \<and> try_loop w t opts p 3 k c = try_loop w t opts p 2 (k + 1) c1
            \<and> (raises w (k + 1) S_Create = None \<longrightarrow>
                  prefix [BrowserCreate (k + 1)] (new_events c1 (snd a2))))
       \<and> (fst a1 = Some BrowserGoneException \<and> fst a2 = Some BrowserGoneException \<longrightarrow>
            browser (state c2) = None \<and> tab (state c2) = None
            \<and> try_loop w t opts p 3 k c = try_loop w t opts p 1 (k + 2) c2
            \<and> (raises w (k + 2) S_Create = None \<longrightarrow>
                  prefix [BrowserCreate (k + 2)] (new_events c2 (snd a3))))
       \<and> (fst a1 = Some BrowserGoneException \<and> fst a2 = Some BrowserGoneException
            \<and> fst a3 = Some BrowserGoneException \<longrightarrow>
            try_loop w t opts p 3 k c = (Some BrowserGoneException, k + 3, c3)
            \<and> browser (state c3) = None \<and> tab (state c3) = None)
       \<and> (fst (run_page w t opts p k c) \<noteq> None \<longrightarrow>
            run_pages w t opts (p # ps) k c = run_page w t opts p k c)
       \<and> (fst (run_pages w t opts (p # ps) 0 c) = Some BrowserGoneException \<longrightarrow>
            fst (run_loop w t opts (p # ps) c) = Some BrowserGoneException)"
proof -
  have count: "k < fst (snd (try_loop w t opts p 3 k c))
       \<and> fst (snd (try_loop w t opts p 3 k c)) \<le> k + 3
       \<and> (fst (try_loop w t opts p 3 k c) = Some BrowserGoneException \<longrightarrow>
            fst (snd (try_loop w t opts p 3 k c)) = k + 3)"
    using try_loop_count [of k w t opts p 3 c] by simp
  have closed: "browser (state c1) = None \<and> tab (state c1) = None"
    "browser (state c2) = None \<and> tab (state c2) = None"
    "browser (state c3) = None \<and> tab (state c3) = None"
    unfolding c1_def c2_def c3_def using close_state_closed by blast+
  have s1: "try_loop w t opts p 3 k c = try_loop w t opts p 2 (k + 1) c1"
    if "fst a1 = Some BrowserGoneException"
    using try_loop_gone [of w t opts k p c 2] that
    by (simp add: a1_def c1_def numeral_3_eq_3 numeral_2_eq_2)
  have s2: "try_loop w t opts p 2 (k + 1) c1 = try_loop w t opts p 1 (k + 2) c2"
    if "fst a2 = Some BrowserGoneException"
    using try_loop_gone [of w t opts "k + 1" p c1 1] that
    by (simp add: a2_def c2_def numeral_2_eq_2)
  have s3: "try_loop w t opts p 1 (k + 2) c2 = (Some BrowserGoneException, k + 3, c3)"
    if "fst a3 = Some BrowserGoneException"
    using try_loop_gone [of w t opts "k + 2" p c2 0] that
    by (simp add: a3_def c3_def)
  have r2: "prefix [BrowserCreate (k + 1)] (new_events c1 (snd a2))"
    if "raises w (k + 1) S_Create = None"
    unfolding a2_def using that closed(1) by (intro attempt_rebuilds) simp_all
  have r3: "prefix [BrowserCreate (k + 2)] (new_events c2 (snd a3))"
    if "raises w (k + 2) S_Create = None"
    unfolding a3_def using that closed(2) by (intro attempt_rebuilds) simp_all
  have first: "fst a1 = Some BrowserGoneException \<longrightarrow>
            browser (state c1) = None \<and> tab (state c1) = None
            \<and> try_loop w t opts p 3 k c = try_loop w t opts p 2 (k + 1) c1
            \<and> (raises w (k + 1) S_Create = None \<longrightarrow>
                  prefix [BrowserCreate (k + 1)] (new_events c1 (snd a2)))"
    using closed(1) s1 r2 by blast
  have second: "fst a1 = Some BrowserGoneException \<and> fst a2 = Some BrowserGoneException \<longrightarrow>
            browser (state c2) = None \<and> tab (state c2) = None
            \<and> try_loop w t opts p 3 k c = try_loop w t opts p 1 (k + 2) c2
            \<and> (raises w (k + 2) S_Create = None \<longrightarrow>
                  prefix [BrowserCreate (k + 2)] (new_events c2 (snd a3)))"
    using closed(2) s1 s2 r3 by auto
  have third: "fst a1 = Some BrowserGoneException \<and> fst a2 = Some BrowserGoneException
            \<and> fst a3 = Some BrowserGoneException \<longrightarrow>
            try_loop w t opts p 3 k c = (Some BrowserGoneException, k + 3, c3)
            \<and> browser (state c3) = None \<and> tab (state c3) = None"
    using closed(3) s1 s2 s3 by auto
  have fatal: "fst (run_page w t opts p k c) \<noteq> None \<longrightarrow>
            run_pages w t opts (p # ps) k c = run_page w t opts p k c"
    using run_pages_abort by blast
  have run: "fst (run_pages w t opts (p # ps) 0 c) = Some BrowserGoneException \<longrightarrow>
            fst (run_loop w t opts (p # ps) c) = Some BrowserGoneException"
    using run_loop_abort by blast
  from count first second third fatal run show ?thesis by (intro conjI) blast+
qed


theorem C1_retry_budget_witness:
  "fst (attempt (ex_world\<lparr>raises := lose_connection\<rparr>) ex_test ex_options 0 ex_page1 ex_ctx)
     = Some BrowserGoneException
   \<and> fst (try_loop (ex_world\<lparr>raises := lose_connection\<rparr>) ex_test ex_options ex_page1 3 0 ex_ctx)
     = Some BrowserGoneException
   \<and> fst (snd (try_loop (ex_world\<lparr>raises := lose_connection\<rparr>) ex_test ex_options ex_page1 3 0 ex_ctx))
     = 3
   \<and> run_pages (ex_world\<lparr>raises := lose_connection\<rparr>) ex_test ex_options
        [ex_page1, ex_page2] 0 ex_ctx
     = run_page (ex_world\<lparr>raises := lose_connection\<rparr>) ex_test ex_options ex_page1 0 ex_ctx
   \<and> filter is_session_event
        (snd (Run (ex_world\<lparr>raises := lose_connection\<rparr>) ex_reorder always ex_rnd
                [ex_page1, ex_page2] False ex_test ex_options))
     = [BrowserCreate 0, TabDisconnect 0, BrowserClose 0,
        BrowserCreate 1, TabDisconnect 1, BrowserClose 1,
        BrowserCreate 2, TabDisconnect 2, BrowserClose 2]"
proof -
  let ?w = "ex_world\<lparr>raises := lose_connection\<rparr>"
  let ?c1 = "snd (close_state (snd (attempt ?w ex_test ex_options 0 ex_page1 ex_ctx)))"
  let ?c2 = "snd (close_state (snd (attempt ?w ex_test ex_options (0 + 1) ex_page1 ?c1)))"
  have h1: "fst (attempt ?w ex_test ex_options 0 ex_page1 ex_ctx) = Some BrowserGoneException"
    by code_simp
  have h2: "fst (attempt ?w ex_test ex_options (0 + 1) ex_page1 ?c1) = Some BrowserGoneException"
    by code_simp
  have h3: "fst (attempt ?w ex_test ex_options (0 + 2) ex_page1 ?c2) = Some BrowserGoneException"
    by code_simp
  have h4: "fst (run_page ?w ex_test ex_options ex_page1 0 ex_ctx) \<noteq> None"
    by code_simp
  have "try_loop ?w ex_test ex_options ex_page1 3 0 ex_ctx =
          (Some BrowserGoneException, 0 + 3,
           snd (close_state (snd (attempt ?w ex_test ex_options (0 + 2) ex_page1 ?c2))))
        \<and> run_pages ?w ex_test ex_options (ex_page1 # [ex_page2]) 0 ex_ctx
            = run_page ?w ex_test ex_options ex_page1 0 ex_ctx"
    using C1_retry_budget [where w = ?w and t = ex_test and opts = ex_options and p = ex_page1
        and k = 0 and c = ex_ctx and ps = "[ex_page2]"] h1 h2 h3 h4
    by blast
  moreover have "filter is_session_event
        (snd (Run ?w ex_reorder always ex_rnd [ex_page1, ex_page2] False ex_test ex_options))
     = [BrowserCreate 0, TabDisconnect 0, BrowserClose 0,
        BrowserCreate 1, TabDisconnect 1, BrowserClose 1,
        BrowserCreate 2, TabDisconnect 2, BrowserClose 2]"
    by code_simp
  ultimately show ?thesis using h1 by (simp del: run_pages.simps)
qed

section \<open>The session between consecutive pages\<close>

lemma loop_head_same:
  "last_archive_path c = archive_path p \<Longrightarrow>
   trace (loop_head w t opts p c) = trace c \<and> state (loop_head w t opts p c) = state c
   \<and> last_archive_path (loop_head w t opts p c) = archive_path p"
  by (simp add: loop_head_def Let_def)

lemma loop_head_other:
  "last_archive_path c \<noteq> archive_path p \<Longrightarrow>
   trace (loop_head w t opts p c) = trace c @ snd (Close (state c))
   \<and> state (loop_head w t opts p c) = RunState_init
   \<and> last_archive_path (loop_head w t opts p c) = archive_path p"
  by (simp add: loop_head_def Let_def close_state_eq)

lemma run_page_last_archive_path:
  "last_archive_path (snd (snd (run_page w t opts p k c))) = archive_path p"
proof -
  have "last_archive_path (loop_head w t opts p c) = archive_path p"
    using loop_head_same [of c p w t opts] loop_head_other [of c p w t opts] by blast
  moreover have "grows (loop_head w t opts p c) (snd (snd (run_page w t opts p k c)))"
    unfolding run_page_def by (rule grows_try_loop)
  ultimately show ?thesis by (simp add: grows_def)
qed

lemma run_page_starts:
  assumes q: "\<forall>s \<in> set session_sites. raises w k s = None"
    and b: "browser (state c) = None \<longrightarrow> tab (state c) = None"
  shows "prefix
           ((if last_archive_path c = archive_path p
             then (if browser (state c) = None then [BrowserCreate k] else [])
             else snd (Close (state c)) @ [BrowserCreate k])
            @ [CanRunForPage p])
           (new_events c (snd (snd (run_page w t opts p k c))))"
proof -
  let ?h = "loop_head w t opts p c"
  let ?r = "snd (snd (try_loop w t opts p 3 k ?h))"
  have gh: "grows ?h ?r" by (rule grows_try_loop)
  have tr: "trace ?r = trace ?h @ new_events ?h ?r"
    using gh by (simp add: grows_def extends_def)
  have bh: "browser (state ?h) = None \<longrightarrow> tab (state ?h) = None"
    using b loop_head_same [of c p w t opts] loop_head_other [of c p w t opts]
    by (cases "last_archive_path c = archive_path p") (simp_all add: RunState_init_def)
  have "prefix ((if browser (state ?h) = None then [BrowserCreate k] else []) @ [CanRunForPage p])
          (new_events ?h (snd (attempt w t opts k p ?h)))"
    using q bh by (rule attempt_starts)
  then have ph: "prefix ((if browser (state ?h) = None then [BrowserCreate k] else []) @ [CanRunForPage p])
          (new_events ?h ?r)"
    unfolding numeral_3_eq_3 by (rule try_loop_first)
  show ?thesis
  proof (cases "last_archive_path c = archive_path p")
    case True
    then have "trace ?h = trace c" "state ?h = state c"
      using loop_head_same [of c p w t opts] by simp_all
    then have "new_events c ?r = new_events ?h ?r"
      using tr by (simp add: new_events_def)
    then show ?thesis
      using ph True \<open>state ?h = state c\<close> by (simp add: run_page_def)
  next
    case False
    then have th: "trace ?h = trace c @ snd (Close (state c))" and sh: "state ?h = RunState_init"
      using loop_head_other [of c p w t opts] by simp_all
    have "trace ?r = trace c @ (snd (Close (state c)) @ new_events ?h ?r)"
      using tr th by simp
    then have "new_events c ?r = snd (Close (state c)) @ new_events ?h ?r"
      by (rule new_events_append)
    moreover have "prefix ([BrowserCreate k] @ [CanRunForPage p]) (new_events ?h ?r)"
      using ph sh by (simp add: RunState_init_def)
    ultimately show ?thesis
      using False by (simp add: run_page_def)
  qed
qed

text \<open>
  C4, amended: let a page have been run, and let no call of the session set-up raise in
  the first attempt of the next page. The loop then compares the next page's archive
  path with that of the page just run. If the session is still there (a tab and a
  browser) and the paths are equal, the first call for the next page is its capability
  check: nothing is closed or created. If the session is still there and the paths
  differ, exactly the tab is disconnected, the browser closed and a new browser created
  before the capability check. If the page just run left the session closed (the test
  wants a restart after each run, or the tab crashed), a browser is created first,
  whatever the archive paths.
\<close>

theorem C4_session_between_items:
  assumes "run_page w t opts p k c = (None, k1, c1)"
    and "\<forall>s \<in> set session_sites. raises w k1 s = None"
  shows "last_archive_path c1 = archive_path p
       \<and> run_pages w t opts (p # q # ps) k c = run_pages w t opts (q # ps) k1 c1
       \<and> (archive_path q = archive_path p \<and> browser (state c1) = Some b \<and> tab (state c1) = Some tb
            \<longrightarrow> prefix [CanRunForPage q] (new_events c1 (snd (snd (run_page w t opts q k1 c1)))))
       \<and> (archive_path q \<noteq> archive_path p \<and> browser (state c1) = Some b \<and> tab (state c1) = Some tb
            \<longrightarrow> prefix [TabDisconnect tb, BrowserClose b, BrowserCreate k1, CanRunForPage q]
                  (new_events c1 (snd (snd (run_page w t opts q k1 c1)))))
       \<and> (browser (state c1) = None \<and> tab (state c1) = None
            \<longrightarrow> prefix [BrowserCreate k1, CanRunForPage q]
                  (new_events c1 (snd (snd (run_page w t opts q k1 c1)))))"
proof -
  have last: "last_archive_path c1 = archive_path p"
    using run_page_last_archive_path [of w t opts p k c] assms(1) by simp
  have next_item: "run_pages w t opts (p # q # ps) k c = run_pages w t opts (q # ps) k1 c1"
    using assms(1) by simp
  have same: "prefix [CanRunForPage q] (new_events c1 (snd (snd (run_page w t opts q k1 c1))))"
    if "archive_path q = archive_path p" "browser (state c1) = Some b" "tab (state c1) = Some tb"
    using run_page_starts [OF assms(2), of c1 q t opts] that last by simp
  have other: "prefix [TabDisconnect tb, BrowserClose b, BrowserCreate k1, CanRunForPage q]
                  (new_events c1 (snd (snd (run_page w t opts q k1 c1))))"
    if "archive_path q \<noteq> archive_path p" "browser (state c1) = Some b" "tab (state c1) = Some tb"
    using run_page_starts [OF assms(2), of c1 q t opts] that last by (simp add: Close_events)
  have torn: "prefix [BrowserCreate k1, CanRunForPage q]
                  (new_events c1 (snd (snd (run_page w t opts q k1 c1))))"
    if "browser (state c1) = None" "tab (state c1) = None"
    using run_page_starts [OF assms(2), of c1 q t opts] that last
    by (cases "archive_path p = archive_path q") (simp_all add: Close_events)
  from last next_item same other torn show ?thesis by blast
qed

text \<open>
  C4, as stated: consecutive pages with one archive path share the session. With a test
  that needs a browser restart after each run, the browser is closed after the first page
  and another one created for the second, although their archive paths are equal.
\<close>

theorem C4_restart_between_items_counterexample:
  "archive_path ex_page1 = archive_path ex_page2
   \<and> Run ex_world ex_reorder always ex_rnd [ex_page1, ex_page2] False
        (ex_test\<lparr>needs_browser_restart_after_each_run := True\<rparr>) ex_options
     = (None,
        [CustomizeBrowserOptionsForPage ex_page1, CustomizeBrowserOptionsForPage ex_page2,
         BrowserCreate 0, CanRunForPage ex_page1, WillRunPageSet (Some 0) OutResults,
         Navigate ex_page1 (Some 0), TestRun ex_page1 (Some 0) OutResults,
         CloseConnections (Some 0), AddSuccess OutResults ex_page1,
         TabDisconnect 0, BrowserClose 0,
         BrowserCreate 1, CanRunForPage ex_page2, Navigate ex_page2 (Some 1),
         TestRun ex_page2 (Some 1) OutResults, CloseConnections (Some 1),
         AddSuccess OutResults ex_page2, TabDisconnect 1, BrowserClose 1,
         DidRunPageSet None OutResults])"
  by code_simp


theorem C4_session_between_items_witness:
  "fst (run_page ex_world ex_test ex_options ex_page1 0 ex_ctx) = None
   \<and> prefix [CanRunForPage ex_page2]
        (new_events (snd (snd (run_page ex_world ex_test ex_options ex_page1 0 ex_ctx)))
           (snd (snd (run_page ex_world ex_test ex_options ex_page2 1
                        (snd (snd (run_page ex_world ex_test ex_options ex_page1 0 ex_ctx)))))))
   \<and> prefix [TabDisconnect 0, BrowserClose 0, BrowserCreate 1, CanRunForPage ex_login_page]
        (new_events (snd (snd (run_page ex_world ex_test ex_options ex_page1 0 ex_ctx)))
           (snd (snd (run_page ex_world ex_test ex_options ex_login_page 1
                        (snd (snd (run_page ex_world ex_test ex_options ex_page1 0 ex_ctx)))))))"
proof -
  obtain r k1 c1 where rp: "run_page ex_world ex_test ex_options ex_page1 0 ex_ctx = (r, k1, c1)"
    using prod_cases3 by blast
  have "fst (run_page ex_world ex_test ex_options ex_page1 0 ex_ctx) = None
      \<and> fst (snd (run_page ex_world ex_test ex_options ex_page1 0 ex_ctx)) = 1
      \<and> browser (state (snd (snd (run_page ex_world ex_test ex_options ex_page1 0 ex_ctx)))) = Some 0
      \<and> tab (state (snd (snd (run_page ex_world ex_test ex_options ex_page1 0 ex_ctx)))) = Some 0"
    by code_simp
  then have r: "r = None" and k1: "k1 = 1"
    and b: "browser (state c1) = Some 0" and tb: "tab (state c1) = Some 0"
    by (simp_all only: rp fst_conv snd_conv)
  have rp': "run_page ex_world ex_test ex_options ex_page1 0 ex_ctx = (None, 1, c1)"
    using rp r k1 by simp
  have quiet: "\<forall>s \<in> set session_sites. raises ex_world 1 s = None"
    by (simp add: ex_world_def quiet_def)
  have same: "archive_path ex_page2 = archive_path ex_page1"
    by (simp add: ex_page1_def ex_page2_def)
  have other: "archive_path ex_login_page \<noteq> archive_path ex_page1"
    by (simp add: ex_page1_def ex_login_page_def)
  have "prefix [CanRunForPage ex_page2]
          (new_events c1 (snd (snd (run_page ex_world ex_test ex_options ex_page2 1 c1))))"
    using C4_session_between_items [OF rp' quiet, where q = ex_page2 and b = 0 and tb = 0]
      same b tb by blast
  moreover have "prefix [TabDisconnect 0, BrowserClose 0, BrowserCreate 1, CanRunForPage ex_login_page]
          (new_events c1 (snd (snd (run_page ex_world ex_test ex_options ex_login_page 1 c1))))"
    using C4_session_between_items [OF rp' quiet, where q = ex_login_page and b = 0 and tb = 0]
      other b tb by blast
  ultimately show ?thesis
    by (simp only: rp' fst_conv snd_conv simp_thms)
qed

section \<open>Cleanup after a page\<close>

lemma CleanUpPage_eq:
  assumes "raises w k S_LoginNoLongerNeeded = None"
  shows "CleanUpPage w k p c =
           (raises w k S_CloseConnections,
            c\<lparr>trace := trace c @
                 (if truthy (credentials p) \<and> did_login c
                  then [LoginNoLongerNeeded (tab (state c)) p] else [])
                 @ [CloseConnections (tab (state c))]\<rparr>)"
  using assms
  by (cases "raises w k S_CloseConnections")
     (simp_all add: CleanUpPage_def steps.simps call_def skip_def)

lemma PreparePage_quiet:
  assumes "PreparePage w k p c = (r, c1)"
  shows "state c1 = state c \<and> trace c1 = trace c @ new_events c c1
       \<and> filter is_cleanup (new_events c c1) = []"
  using assms
  by (auto simp: PreparePage_def steps.simps call_def skip_def Let_def new_events_def
           split: option.splits if_splits prod.splits)

lemma run_test_quiet:
  assumes "run_test w k p c = (fl, c1)"
  shows "state c1 = state c \<and> did_login c1 = did_login c \<and> trace c1 = trace c @ new_events c c1
       \<and> filter is_cleanup (new_events c c1) = []"
  using assms
  by (cases "raises w k S_TestRun"; cases "the (raises w k S_TestRun)")
     (auto simp: run_test_def Let_def new_events_def)


lemma entered_simps:
  "state (entered p c) = state c" "trace (entered p c) = trace c @ [CanRunForPage p]"
  "results_for_current_run (entered p c) = results_for_current_run c"
  "did_login (entered p c) = False"
  by (simp_all add: entered_def)

text \<open>
  C2, amended: provided releasing the login does not itself raise. When the test cannot
  run for the page, the page is recorded as skipped and nothing is cleaned up. When
  \<^verbatim>\<open>_PreparePage\<close> returns (the login failed, or the page is ready and \<^verbatim>\<open>test.Run\<close> is
  called, however that ends: normally, with a failure, a timeout, a crashed tab, a lost
  connection or any other exception) or raises an exception other than a timeout, a
  crashed tab or a lost connection, \<^verbatim>\<open>_CleanUpPage\<close> runs exactly once: the login is
  released if one occurred, then the connections of the tab are closed. When
  \<^verbatim>\<open>_PreparePage\<close> raises for a crashed tab or a lost connection, nothing is cleaned up.
\<close>

theorem C2_cleanup_paths:
  assumes rel: "raises w k S_LoginNoLongerNeeded = None"
    and prep: "PreparePage w k p (entered p c) = (pr, c1)"
  shows "(\<not> can_run w k \<longrightarrow>
            new_events c (snd (RunPage w k p c)) =
              [CanRunForPage p, AddSkippedPage (results_for_current_run c) p])
       \<and> (can_run w k \<and> (pr = Inr True \<or> pr = Inr False
              \<or> (\<exists>e. pr = Inl e \<and> e \<noteq> TimeoutException \<and> e \<noteq> TabCrashException
                       \<and> e \<noteq> BrowserGoneException)) \<longrightarrow>
            filter is_cleanup (new_events c (snd (RunPage w k p c))) =
              (if truthy (credentials p) \<and> did_login c1
               then [LoginNoLongerNeeded (tab (state c)) p] else [])
              @ [CloseConnections (tab (state c))])
       \<and> (can_run w k \<and> (pr = Inl TabCrashException \<or> pr = Inl BrowserGoneException) \<longrightarrow>
            filter is_cleanup (new_events c (snd (RunPage w k p c))) = [])"
proof -
  let ?cleanup = "(if truthy (credentials p) \<and> did_login c1
               then [LoginNoLongerNeeded (tab (state c)) p] else [])
              @ [CloseConnections (tab (state c))]"
  define ne1 where "ne1 = new_events (entered p c) c1"
  have q1: "state c1 = state c"
    and t1: "trace c1 = trace c @ [CanRunForPage p] @ ne1"
    and n1: "filter is_cleanup ne1 = []"
    using PreparePage_quiet [OF prep] by (simp_all add: entered_simps ne1_def)
  have fc: "filter is_cleanup ?cleanup = ?cleanup"
    by simp
  have skip: "\<not> can_run w k \<longrightarrow>
            new_events c (snd (RunPage w k p c)) =
              [CanRunForPage p, AddSkippedPage (results_for_current_run c) p]"
    by (simp add: RunPage_skip new_events_def)
  have cl1: "CleanUpPage w k p c1 = (raises w k S_CloseConnections, c1\<lparr>trace := trace c1 @ ?cleanup\<rparr>)"
    using CleanUpPage_eq [OF rel, of p c1] q1 by simp
  have after1: "filter is_cleanup (new_events c (c1\<lparr>trace := trace c1 @ ?cleanup\<rparr>)) = ?cleanup"
    using n1 by (simp add: new_events_def t1)
  have not_prepared: "filter is_cleanup (new_events c (snd (RunPage w k p c))) = ?cleanup"
    if "can_run w k" "pr = Inr False"
    using that prep cl1 after1 by (simp add: RunPage_not_prepared)
  have unexpected: "filter is_cleanup (new_events c (snd (RunPage w k p c))) = ?cleanup"
    if "can_run w k" "pr = Inl e" "e \<noteq> TimeoutException" "e \<noteq> TabCrashException"
       "e \<noteq> BrowserGoneException" for e
    using that prep cl1 after1
    by (cases "raises w k S_CloseConnections") (simp_all add: RunPage_prepare_unexpected)
  have prepared: "filter is_cleanup (new_events c (snd (RunPage w k p c))) = ?cleanup"
    if cr: "can_run w k" and pt: "pr = Inr True"
  proof -
    obtain fl c2 where rt: "run_test w k p c1 = (fl, c2)"
      by (cases "run_test w k p c1")
    define ne2 where "ne2 = new_events c1 c2"
    have q2: "state c2 = state c" and d2: "did_login c2 = did_login c1"
      and t2: "trace c2 = trace c @ [CanRunForPage p] @ ne1 @ ne2"
      and n2: "filter is_cleanup ne2 = []"
      using run_test_quiet [OF rt] q1 t1 by (simp_all add: ne2_def)
    have cl2: "CleanUpPage w k p c2 =
                 (raises w k S_CloseConnections, c2\<lparr>trace := trace c2 @ ?cleanup\<rparr>)"
      using CleanUpPage_eq [OF rel, of p c2] q2 d2 by simp
    have after2: "filter is_cleanup (new_events c (c2\<lparr>trace := trace c2 @ ?cleanup\<rparr>)) = ?cleanup"
      using n1 n2 by (simp add: new_events_def t2)
    have after2s: "filter is_cleanup
            (new_events c (c2\<lparr>trace := trace c2 @ ?cleanup @ [AddSuccess s p]\<rparr>)) = ?cleanup" for s
      using n1 n2 by (simp add: new_events_def t2)
    have "RunPage w k p c =
            (case CleanUpPage w k p c2 of
               (Some e', c3) \<Rightarrow> (Some e', c3)
             | (None, c3) \<Rightarrow>
                 (case fl of
                    Normal \<Rightarrow> (None, c3\<lparr>trace := trace c3 @ [AddSuccess (results_for_current_run c) p]\<rparr>)
                  | Return \<Rightarrow> (None, c3)
                  | Raise e \<Rightarrow> (Some e, c3)))"
      using cr prep pt rt by (simp add: RunPage_prepared)
    then show ?thesis
      using after2 after2s [of "results_for_current_run c"]
      by (cases "raises w k S_CloseConnections"; cases fl) (simp_all add: cl2)
  qed
  have crash: "filter is_cleanup (new_events c (snd (RunPage w k p c))) = []"
    if "can_run w k" "pr = Inl TabCrashException"
    using that prep n1 by (simp add: RunPage_prepare_crash new_events_def t1)
  have gone: "filter is_cleanup (new_events c (snd (RunPage w k p c))) = []"
    if "can_run w k" "pr = Inl BrowserGoneException"
    using that prep n1 by (simp add: RunPage_prepare_gone new_events_def t1)
  from skip not_prepared unexpected prepared crash gone show ?thesis
    by (intro conjI impI) blast+
qed

text \<open>
  C2, as stated: cleanup runs on every exit from the Prepare phase too. A page that logs
  in and then loses the connection while navigating leaves \<^verbatim>\<open>_RunPage\<close> with the
  exception, the login made, and neither the login released nor the connections closed.
\<close>

theorem C2_prepare_lost_connection_counterexample:
  "fst (RunPage (ex_world\<lparr>raises := lose_connection\<rparr>) 0 ex_login_page ex_live_ctx)
     = Some BrowserGoneException
   \<and> did_login (snd (RunPage (ex_world\<lparr>raises := lose_connection\<rparr>) 0 ex_login_page ex_live_ctx))
   \<and> new_events ex_live_ctx
        (snd (RunPage (ex_world\<lparr>raises := lose_connection\<rparr>) 0 ex_login_page ex_live_ctx))
     = [CanRunForPage ex_login_page, WillRunPageSet (Some 0) OutResults,
        Navigate ex_login_page (Some 0)]"
  by code_simp

theorem C2_cleanup_paths_witness:
  "filter is_cleanup
     (new_events ex_live_ctx
        (snd (RunPage (ex_world\<lparr>raises := crash_first\<rparr>) 0 ex_login_page ex_live_ctx)))
   = [LoginNoLongerNeeded (Some 0) ex_login_page, CloseConnections (Some 0)]
   \<and> fst (RunPage (ex_world\<lparr>raises := crash_first\<rparr>) 0 ex_login_page ex_live_ctx)
       = Some TabCrashException"
proof -
  let ?w = "ex_world\<lparr>raises := crash_first\<rparr>"
  have rel: "raises ?w 0 S_LoginNoLongerNeeded = None"
    by (simp add: crash_first_def)
  obtain pr c1 where prep: "PreparePage ?w 0 ex_login_page (entered ex_login_page ex_live_ctx) = (pr, c1)"
    by (cases "PreparePage ?w 0 ex_login_page (entered ex_login_page ex_live_ctx)")
  have "fst (PreparePage ?w 0 ex_login_page (entered ex_login_page ex_live_ctx)) = Inr True
      \<and> did_login (snd (PreparePage ?w 0 ex_login_page (entered ex_login_page ex_live_ctx)))"
    by code_simp
  then have pr: "pr = Inr True" and dl: "did_login c1"
    by (simp_all only: prep fst_conv snd_conv)
  have cr: "can_run ?w 0"
    by (simp add: ex_world_def always_def)
  have cred: "truthy (credentials ex_login_page)" and tb: "tab (state ex_live_ctx) = Some 0"
    by (simp_all add: ex_login_page_def ex_live_ctx_def)
  have "filter is_cleanup (new_events ex_live_ctx (snd (RunPage ?w 0 ex_login_page ex_live_ctx))) =
              (if truthy (credentials ex_login_page) \<and> did_login c1
               then [LoginNoLongerNeeded (tab (state ex_live_ctx)) ex_login_page] else [])
              @ [CloseConnections (tab (state ex_live_ctx))]"
    using C2_cleanup_paths [OF rel prep] cr pr by blast
  moreover have "fst (RunPage ?w 0 ex_login_page ex_live_ctx) = Some TabCrashException"
    by code_simp
  ultimately show ?thesis
    using cred dl tb by simp
qed

section \<open>A tab crash while the test runs\<close>

text \<open>
  C7: a tab crash in \<^verbatim>\<open>test.Run\<close> is recorded as a failure, the session is closed and
  the run goes on with the next page. With a profiler directory set the run does not go
  on: after the handler has closed the session, \<^verbatim>\<open>_EndProfiling\<close> calls
  \<^verbatim>\<open>state.browser.StopProfiling()\<close> on the browser that is now \<^verbatim>\<open>None\<close>, and \<^verbatim>\<open>Run\<close>
  raises \<^verbatim>\<open>AttributeError\<close> before the second page is tried.
\<close>

theorem C7_tab_crash_with_profiler_aborts:
  "Run (ex_world\<lparr>raises := crash_first\<rparr>) ex_reorder always ex_rnd [ex_page1, ex_page2] False
     ex_test (ex_options\<lparr>profiler_dir := Some ''profiles''\<rparr>)
   = (Some AttributeError,
      [CustomizeBrowserOptionsForPage ex_page1, CustomizeBrowserOptionsForPage ex_page2,
       BrowserCreate 0, CanRunForPage ex_page1, WillRunPageSet (Some 0) OutResults,
       Navigate ex_page1 (Some 0), TestRun ex_page1 (Some 0) OutResults,
       AddFailure OutResults ex_page1 (Exc TabCrashException), CloseConnections (Some 0),
       TabDisconnect 0, BrowserClose 0])"
  by code_simp

text \<open>The same run without a profiler directory goes on to the second page.\<close>

lemma tab_crash_without_profiler_example:
  "Run (ex_world\<lparr>raises := crash_first\<rparr>) ex_reorder always ex_rnd [ex_page1, ex_page2] False
     ex_test ex_options
   = (None,
      [CustomizeBrowserOptionsForPage ex_page1, CustomizeBrowserOptionsForPage ex_page2,
       BrowserCreate 0, CanRunForPage ex_page1, WillRunPageSet (Some 0) OutResults,
       Navigate ex_page1 (Some 0), TestRun ex_page1 (Some 0) OutResults,
       AddFailure OutResults ex_page1 (Exc TabCrashException), CloseConnections (Some 0),
       TabDisconnect 0, BrowserClose 0,
       BrowserCreate 1, CanRunForPage ex_page2, Navigate ex_page2 (Some 1),
       TestRun ex_page2 (Some 1) OutResults, CloseConnections (Some 1),
       AddSuccess OutResults ex_page2,
       DidRunPageSet (Some 1) OutResults, TabDisconnect 1, BrowserClose 1])"
  by code_simp

lemma PreparePage_ready_no_failure:
  assumes "PreparePage w k p c = (Inr True, c1)"
  shows "filter is_AddFailure (new_events c c1) = []"
  using assms
  by (auto simp: PreparePage_def steps.simps call_def skip_def Let_def new_events_def
           split: option.splits if_splits prod.splits)

lemma PreparePage_keeps:
  assumes "PreparePage w k p c = (r, c1)"
  shows "results_for_current_run c1 = results_for_current_run c"
  using assms
  by (auto simp: PreparePage_def steps.simps call_def skip_def Let_def
           split: option.splits if_splits prod.splits)

text \<open>
  An attempt in which the session is set up, the page is prepared and \<^verbatim>\<open>test.Run\<close>
  raises \<^verbatim>\<open>TabCrashException\<close>, while cleanup and reading the standard output return.
\<close>

lemma attempt_tab_crash:
  assumes q: "\<forall>s \<in> set session_sites. raises w k s = None"
    and b: "browser (state c) = None \<longrightarrow> tab (state c) = None"
    and cr: "can_run w k"
    and ready: "fst (PreparePage w k p (entered p (snd (prepare_session w opts k c)))) = Inr True"
    and crash: "raises w k S_TestRun = Some TabCrashException"
    and rel: "raises w k S_LoginNoLongerNeeded = None"
    and conn: "raises w k S_CloseConnections = None"
    and out: "show_stdout opts \<or> raises w k S_GetStandardOutput = None"
  shows "fst (attempt w t opts k p c) =
           (if truthy (profiler_dir opts) then Some AttributeError else None)
       \<and> browser (state (snd (attempt w t opts k p c))) = None
       \<and> tab (state (snd (attempt w t opts k p c))) = None
       \<and> filter is_AddFailure (new_events c (snd (attempt w t opts k p c))) =
            [AddFailure (results_for_current_run c) p (Exc TabCrashException)]"
proof -
  obtain c1 where ps: "prepare_session w opts k c = (None, c1)"
    using prepare_session_quiet [OF q b, of opts]
    by (cases "prepare_session w opts k c") simp
  define s1 where "s1 = (if browser (state c) = None then [BrowserCreate k] else [])"
  have t1: "trace c1 = trace c @ s1"
    using prepare_session_quiet [OF q b, of opts] ps by (simp add: s1_def)
  have g1: "grows c c1" using good_prepare_session ps by (rule goodD)
  have r1: "results_for_current_run c1 = results_for_current_run c"
    using g1 by (simp add: grows_def)
  obtain c2 where prep: "PreparePage w k p (entered p c1) = (Inr True, c2)"
    using ready ps by (cases "PreparePage w k p (entered p c1)") simp
  define ne2 where "ne2 = new_events (entered p c1) c2"
  have q2: "state c2 = state c1" and t2: "trace c2 = trace c @ s1 @ [CanRunForPage p] @ ne2"
    and f2: "filter is_AddFailure ne2 = []"
    and r2: "results_for_current_run c2 = results_for_current_run c"
    using PreparePage_quiet [OF prep] PreparePage_ready_no_failure [OF prep]
      PreparePage_keeps [OF prep] t1 r1
    by (simp_all add: entered_simps ne2_def)
  define sk where "sk = results_for_current_run c"
  define c3 where "c3 = c2\<lparr>trace := trace c2 @ [TestRun p (tab (state c2)) sk,
                                    AddFailure sk p (Exc TabCrashException)]\<rparr>"
  have rt: "run_test w k p c2 = (Raise TabCrashException, c3)"
    using crash r2 by (simp add: run_test_def Let_def c3_def sk_def)
  define cl where "cl = (if truthy (credentials p) \<and> did_login c3
                          then [LoginNoLongerNeeded (tab (state c3)) p] else [])
                         @ [CloseConnections (tab (state c3))]"
  define c4 where "c4 = c3\<lparr>trace := trace c3 @ cl\<rparr>"
  have cu: "CleanUpPage w k p c3 = (None, c4)"
    using CleanUpPage_eq [OF rel, of p c3] conn by (simp add: c4_def cl_def)
  have rp: "RunPage w k p c1 = (Some TabCrashException, c4)"
    using RunPage_prepared [OF cr prep rt] cu by simp
  have fcl: "filter is_AddFailure cl = []"
    by (simp add: cl_def)
  have t4: "trace c4 = trace c @ s1 @ [CanRunForPage p] @ ne2
              @ [TestRun p (tab (state c2)) sk, AddFailure sk p (Exc TabCrashException)] @ cl"
    by (simp add: c4_def c3_def t2)
  define c5 where "c5 = snd (close_state c4)"
  have t5: "trace c5 = trace c4 @ snd (Close (state c4))"
    and st5: "browser (state c5) = None" "tab (state c5) = None" "\<not> is_tracing (state c5)"
    using Close_closed [of "state c4"] by (simp_all add: c5_def close_state_eq)
  have guarded: "run_guarded w opts k p c1 = (None, c5)"
    using rp out
    by (auto simp: run_guarded_def steps.simps call_def skip_def c5_def close_state_eq)
  have again: "close_state c5 = (None, c5)"
    using st5 by (simp add: close_state_eq Close_def)
  have att: "attempt w t opts k p c =
               (if truthy (profiler_dir opts) then (Some AttributeError, c5) else (None, c5))"
    using ps guarded st5 again
    by (simp add: attempt_def steps.simps EndTracing_def EndProfiling_def skip_def)
  have fs1: "filter is_AddFailure s1 = []"
    by (simp add: s1_def)
  have fclose: "filter is_AddFailure (snd (Close (state c4))) = []"
    by (cases "tab (state c4)"; cases "browser (state c4)") (simp_all add: Close_events)
  have "new_events c c5 = s1 @ [CanRunForPage p] @ ne2
              @ [TestRun p (tab (state c2)) sk, AddFailure sk p (Exc TabCrashException)] @ cl
              @ snd (Close (state c4))"
    by (rule new_events_append) (simp add: t5 t4)
  then have "filter is_AddFailure (new_events c c5) = [AddFailure sk p (Exc TabCrashException)]"
    using fs1 f2 fcl fclose by simp
  then show ?thesis
    using att st5 by (simp add: sk_def)
qed

end
